theory Spec2Isabelle
  imports Main
begin

section \<open>Python strings and the interpreter's tables\<close>

text \<open>
  A Python \<open>str\<close> is a sequence of Unicode code points, and \<open>len\<close> counts code points.
  A character is modelled by its code point (a \<open>nat\<close>), a string by a list of them.
  String literals of the source are written \<open>py ''...''\<close>.
\<close>

type_synonym pychar = nat
type_synonym pystr = "nat list"

definition ord :: "char \<Rightarrow> pychar" where
  "ord c = of_char c"

definition py :: "string \<Rightarrow> pystr" where
  "py s = map ord s"

text \<open>
  The repository relies on tables of the interpreter and its standard library that are not
  part of its source: the Unicode character database behind \<open>str.lower\<close>,
  \<open>str.isspace\<close>, the classes for digits, word characters and white space of \<open>re\<close>, and \<open>re.IGNORECASE\<close>, the
  entity table of \<open>html.unescape\<close>, and the iteration order of a \<open>set\<close> of strings.
  They are a parameter of the model. The behaviour on ASCII code points is fixed by the
  definitions below; the fields of the record are consulted for code points from 128 on
  only (\<open>str_lower\<close>, \<open>html_unescape\<close> and \<open>set_iter\<close> are whole functions of the library).
\<close>

record runtime =
  uni_decimal :: "pychar \<Rightarrow> bool"
  uni_alnum :: "pychar \<Rightarrow> bool"
  uni_space :: "pychar \<Rightarrow> bool"
  uni_fold :: "pychar \<Rightarrow> pychar option"
  str_lower :: "pystr \<Rightarrow> pystr"
  html_unescape :: "pystr \<Rightarrow> pystr"
  set_iter :: "pystr list \<Rightarrow> pystr list"

definition ascii_digit :: "pychar \<Rightarrow> bool" where
  "ascii_digit c = (48 \<le> c \<and> c \<le> 57)"

definition ascii_upper :: "pychar \<Rightarrow> bool" where
  "ascii_upper c = (65 \<le> c \<and> c \<le> 90)"

definition ascii_lower :: "pychar \<Rightarrow> bool" where
  "ascii_lower c = (97 \<le> c \<and> c \<le> 122)"

definition ascii_letter :: "pychar \<Rightarrow> bool" where
  "ascii_letter c = (ascii_upper c \<or> ascii_lower c)"

text \<open>The digit class of a \<open>str\<close> pattern: any Unicode decimal digit.\<close>

definition is_digit :: "runtime \<Rightarrow> pychar \<Rightarrow> bool" where
  "is_digit rt c = (ascii_digit c \<or> (128 \<le> c \<and> uni_decimal rt c))"

text \<open>The word class of a \<open>str\<close> pattern: alphanumeric code points and the underscore.\<close>

definition is_word :: "runtime \<Rightarrow> pychar \<Rightarrow> bool" where
  "is_word rt c = (ascii_digit c \<or> ascii_letter c \<or> c = 95 \<or> (128 \<le> c \<and> uni_alnum rt c))"

text \<open>\<open>str.isspace\<close>, which is also the white-space class of \<open>re\<close>: tab to carriage return, the four
  separators 28 to 31, the space, and the Unicode white space beyond ASCII.\<close>

definition is_space :: "runtime \<Rightarrow> pychar \<Rightarrow> bool" where
  "is_space rt c = ((9 \<le> c \<and> c \<le> 13) \<or> (28 \<le> c \<and> c \<le> 32) \<or> (128 \<le> c \<and> uni_space rt c))"

text \<open>A lower-case ASCII letter of a pattern compiled with \<open>re.IGNORECASE\<close> matches
  itself, its upper-case form, and the code points beyond ASCII that fold to it.\<close>

definition ci_match :: "runtime \<Rightarrow> pychar \<Rightarrow> pychar \<Rightarrow> bool" where
  "ci_match rt l c = (c = l \<or> c + 32 = l \<or> (128 \<le> c \<and> uni_fold rt c = Some l))"

text \<open>The class \<open>[A-Za-z]\<close> under \<open>re.IGNORECASE\<close>.\<close>

definition ci_letter :: "runtime \<Rightarrow> pychar \<Rightarrow> bool" where
  "ci_letter rt c = (ascii_letter c \<or> (128 \<le> c \<and> uni_fold rt c \<noteq> None))"

definition strip :: "runtime \<Rightarrow> pystr \<Rightarrow> pystr" where
  "strip rt s = rev (dropWhile (is_space rt) (rev (dropWhile (is_space rt) s)))"

text \<open>\<open>str.split()\<close> without argument: the maximal runs of non-space characters.\<close>

fun split_acc :: "runtime \<Rightarrow> pystr \<Rightarrow> pystr \<Rightarrow> pystr list" where
  "split_acc rt w [] = (if w = [] then [] else [rev w])"
| "split_acc rt w (c # s) =
     (if is_space rt c then (if w = [] then split_acc rt [] s else rev w # split_acc rt [] s)
      else split_acc rt (c # w) s)"

definition split :: "runtime \<Rightarrow> pystr \<Rightarrow> pystr list" where
  "split rt s = split_acc rt [] s"

text \<open>\<open>sub in s\<close> on strings.\<close>

fun contains :: "pystr \<Rightarrow> pystr \<Rightarrow> bool" where
  "contains sub [] = (sub = [])"
| "contains sub (c # s) = (take (length sub) (c # s) = sub \<or> contains sub s)"

text \<open>\<open>sep.join(xs)\<close>.\<close>

fun join :: "pystr \<Rightarrow> pystr list \<Rightarrow> pystr" where
  "join sep [] = []"
| "join sep [x] = x"
| "join sep (x # y # xs) = x @ sep @ join sep (y # xs)"

section \<open>Regular expressions as the \<open>re\<close> module matches them\<close>

text \<open>
  The patterns of the repository use literals, classes, sequence, ordered alternation,
  greedy and lazy bounded repetition and the word boundary. The matcher is a
  backtracking one: \<open>m r p\<close> lists the positions at which a match of \<open>r\<close> started at
  \<open>p\<close> can end, in the order in which backtracking tries them, so the head of the list is
  the match the \<open>re\<close> module reports. A position is the character before it (if any)
  and the text after it.
\<close>

type_synonym pos = "pychar option \<times> pystr"

datatype regex =
    Eps
  | Chr pychar
  | Cls "pychar \<Rightarrow> bool"
  | Seq regex regex
  | Alt regex regex
  | Rep regex nat "nat option"
  | Lazy regex nat "nat option"
  | Bnd "pychar \<Rightarrow> bool"

definition at_boundary :: "(pychar \<Rightarrow> bool) \<Rightarrow> pos \<Rightarrow> bool" where
  "at_boundary w p =
     ((case fst p of None \<Rightarrow> False | Some c \<Rightarrow> w c) \<noteq> (case snd p of [] \<Rightarrow> False | c # _ \<Rightarrow> w c))"

definition dec :: "nat option \<Rightarrow> nat option" where
  "dec hi = map_option (\<lambda>h. h - 1) hi"

definition advances :: "pos \<Rightarrow> pos \<Rightarrow> bool" where
  "advances p q = (length (snd q) < length (snd p))"

text \<open>
  Repetition between \<open>lo\<close> and \<open>hi\<close> times (\<open>None\<close>: unbounded). The first argument
  bounds the number of iterations by the length of the remaining text: an iteration
  that consumes nothing is not repeated, so the bound is never reached before the text is
  used up. The greedy form tries one more iteration before it tries to stop, the lazy
  form tries to stop first.
\<close>

fun greedy :: "(pos \<Rightarrow> pos list) \<Rightarrow> nat \<Rightarrow> nat \<Rightarrow> nat option \<Rightarrow> pos \<Rightarrow> pos list" where
  "greedy f 0 lo hi p = (if lo = 0 then [p] else [])"
| "greedy f (Suc n) lo hi p =
     (if hi = Some 0 then (if lo = 0 then [p] else [])
      else concat (map (greedy f n (lo - 1) (dec hi)) (filter (advances p) (f p)))
           @ (if lo = 0 then [p] else []))"

fun lazy :: "(pos \<Rightarrow> pos list) \<Rightarrow> nat \<Rightarrow> nat \<Rightarrow> nat option \<Rightarrow> pos \<Rightarrow> pos list" where
  "lazy f 0 lo hi p = (if lo = 0 then [p] else [])"
| "lazy f (Suc n) lo hi p =
     (if hi = Some 0 then (if lo = 0 then [p] else [])
      else (if lo = 0 then [p] else [])
           @ concat (map (lazy f n (lo - 1) (dec hi)) (filter (advances p) (f p))))"

primrec m :: "regex \<Rightarrow> pos \<Rightarrow> pos list" where
  "m Eps p = [p]"
| "m (Chr c) p = (case snd p of [] \<Rightarrow> [] | x # xs \<Rightarrow> if x = c then [(Some x, xs)] else [])"
| "m (Cls P) p = (case snd p of [] \<Rightarrow> [] | x # xs \<Rightarrow> if P x then [(Some x, xs)] else [])"
| "m (Seq a b) p = concat (map (m b) (m a p))"
| "m (Alt a b) p = m a p @ m b p"
| "m (Rep r lo hi) p = greedy (m r) (length (snd p)) lo hi p"
| "m (Lazy r lo hi) p = lazy (m r) (length (snd p)) lo hi p"
| "m (Bnd w) p = (if at_boundary w p then [p] else [])"

text \<open>The number of characters of the first match at a position, if there is one.\<close>

definition match_len :: "regex \<Rightarrow> pos \<Rightarrow> nat option" where
  "match_len r p = (case m r p of [] \<Rightarrow> None | q # _ \<Rightarrow> Some (length (snd p) - length (snd q)))"

text \<open>
  The scan shared by \<open>re.findall\<close> and \<open>re.sub\<close>: the leftmost match, then the leftmost
  match after it, and so on. The result lists the text in order, \<open>Inl c\<close> for a
  character outside every match and \<open>Inr w\<close> for a matched span \<open>w\<close>. After an empty
  match the scan moves on by one character.
\<close>

function scan :: "regex \<Rightarrow> pychar option \<Rightarrow> pystr \<Rightarrow> (pychar + pystr) list" where
  "scan r pv [] = (case match_len r (pv, []) of None \<Rightarrow> [] | Some _ \<Rightarrow> [Inr []])"
| "scan r pv (c # s) =
     (case match_len r (pv, c # s) of
        None \<Rightarrow> Inl c # scan r (Some c) s
      | Some 0 \<Rightarrow> Inr [] # Inl c # scan r (Some c) s
      | Some (Suc n) \<Rightarrow> Inr (take (Suc n) (c # s)) # scan r (Some ((c # s) ! n)) (drop n s))"
  by pat_completeness auto
termination
  by (relation "measure (\<lambda>(r, pv, s). length s)") auto

text \<open>\<open>re.findall\<close> for a pattern without groups: the matched spans. For a pattern with
  groups Python lists the groups of each match instead, one entry per match, so the
  list is empty in the same cases.\<close>

definition findall :: "regex \<Rightarrow> pystr \<Rightarrow> pystr list" where
  "findall r s = [w. Inr w \<leftarrow> scan r None s]"

text \<open>\<open>re.sub\<close> with a replacement string free of escapes.\<close>

definition re_sub :: "regex \<Rightarrow> pystr \<Rightarrow> pystr \<Rightarrow> pystr" where
  "re_sub r repl s = concat (map (\<lambda>x. case x of Inl c \<Rightarrow> [c] | Inr w \<Rightarrow> repl) (scan r None s))"

fun seqs :: "regex list \<Rightarrow> regex" where
  "seqs [] = Eps"
| "seqs [r] = r"
| "seqs (r # rs) = Seq r (seqs rs)"

fun alts :: "regex list \<Rightarrow> regex" where
  "alts [] = Cls (\<lambda>c. False)"
| "alts [r] = r"
| "alts (r # rs) = Alt r (alts rs)"

text \<open>A literal word of a pattern, matched exactly and matched under \<open>re.IGNORECASE\<close>
  (the words so used in the repository are lower-case ASCII letters).\<close>

definition lit :: "string \<Rightarrow> regex" where
  "lit w = seqs (map (\<lambda>c. Chr (ord c)) w)"

definition lit_ci :: "runtime \<Rightarrow> string \<Rightarrow> regex" where
  "lit_ci rt w = seqs (map (\<lambda>c. Cls (ci_match rt (ord c))) w)"

definition opt :: "regex \<Rightarrow> regex" where
  "opt r = Rep r 0 (Some 1)"

definition rep1 :: "regex \<Rightarrow> regex" where
  "rep1 r = Rep r 1 None"

definition rep0 :: "regex \<Rightarrow> regex" where
  "rep0 r = Rep r 0 None"

section \<open>A concrete interpreter for evaluation\<close>

text \<open>
  \<open>plain_runtime\<close> gives the tables of CPython 3 on the texts used for evaluation below:
  texts of ASCII characters and Arabic-Indic digits (U+0660 to U+0669, which are decimal
  digits and alphanumeric) in which every ampersand starts one of the references
  \<open>&amp;\<close>, \<open>&lt;\<close>, \<open>&gt;\<close>, \<open>&quot;\<close>. On those texts \<open>str.lower\<close> maps the
  upper-case ASCII letters, and \<open>html.unescape\<close> decodes the four references.
\<close>

function unescape_plain :: "pystr \<Rightarrow> pystr" where
  "unescape_plain [] = []"
| "unescape_plain (c # s) =
     (if c \<noteq> 38 then c # unescape_plain s
      else if take 4 s = py ''amp;'' then 38 # unescape_plain (drop 4 s)
      else if take 3 s = py ''lt;'' then 60 # unescape_plain (drop 3 s)
      else if take 3 s = py ''gt;'' then 62 # unescape_plain (drop 3 s)
      else if take 5 s = py ''quot;'' then 34 # unescape_plain (drop 5 s)
      else c # unescape_plain s)"
  by pat_completeness auto
termination
  by (relation "measure length") auto

definition plain_runtime :: runtime where
  "plain_runtime =
     \<lparr> uni_decimal = (\<lambda>c. 1632 \<le> c \<and> c \<le> 1641),
       uni_alnum = (\<lambda>c. 1632 \<le> c \<and> c \<le> 1641),
       uni_space = (\<lambda>c. False),
       uni_fold = (\<lambda>c. None),
       str_lower = map (\<lambda>c. if ascii_upper c then c + 32 else c),
       html_unescape = unescape_plain,
       set_iter = remdups \<rparr>"

section \<open>sanitizer.py\<close>

definition INJECTION_PHRASES :: "pystr list" where
  "INJECTION_PHRASES = map py
     [''ignore previous instructions'',
      ''ignore all instructions'',
      ''ignore your instructions'',
      ''forget your instructions'',
      ''forget previous instructions'',
      ''you are now'',
      ''act as'',
      ''pretend you are'',
      ''disregard your'',
      ''override your'',
      ''new instruction'',
      ''system prompt'',
      ''do not follow'',
      ''stop following'']"

definition one_of :: "string \<Rightarrow> pychar \<Rightarrow> bool" where
  "one_of cs c = (c \<in> set (py cs))"

definition wb :: "runtime \<Rightarrow> regex" where
  "wb rt = Bnd (is_word rt)"

definition digit :: "runtime \<Rightarrow> regex" where
  "digit rt = Cls (is_digit rt)"

definition id_re :: "runtime \<Rightarrow> regex" where
  "id_re rt = seqs [wb rt, Rep (digit rt) 9 (Some 9), wb rt]"

definition card_re :: "runtime \<Rightarrow> regex" where
  "card_re rt = seqs [wb rt, Rep (Seq (digit rt) (opt (Cls (one_of '' -'')))) 13 (Some 19), wb rt]"

definition il_phone_re :: "runtime \<Rightarrow> regex" where
  "il_phone_re rt =
     seqs [Alt (lit ''+972'') (lit ''0''),
           alts [Cls (one_of ''23489''), Seq (lit ''5'') (Cls ascii_digit), Seq (lit ''7'') (Cls ascii_digit)],
           opt (Cls (\<lambda>c. c = ord CHR ''-'' \<or> is_space rt c)),
           Rep (digit rt) 3 (Some 3),
           opt (Cls (\<lambda>c. c = ord CHR ''-'' \<or> is_space rt c)),
           Rep (digit rt) 4 (Some 4)]"

definition phone_re :: "runtime \<Rightarrow> regex" where
  "phone_re rt =
     seqs [wb rt, opt (lit ''+''),
           Rep (Cls (\<lambda>c. is_digit rt c \<or> is_space rt c \<or> one_of ''-().'' c)) 7 (Some 20),
           digit rt, wb rt]"

definition email_re :: "runtime \<Rightarrow> regex" where
  "email_re rt =
     seqs [wb rt,
           rep1 (Cls (\<lambda>c. ci_letter rt c \<or> ascii_digit c \<or> one_of ''._%+-'' c)),
           lit ''@'',
           rep1 (Cls (\<lambda>c. ci_letter rt c \<or> ascii_digit c \<or> one_of ''.-'' c)),
           lit ''.'',
           Rep (Cls (ci_letter rt)) 2 None,
           wb rt]"

definition address_re :: "runtime \<Rightarrow> regex" where
  "address_re rt =
     seqs [wb rt, Rep (digit rt) 1 (Some 5),
           rep1 (Cls (is_space rt)), rep1 (Cls (is_word rt)), rep1 (Cls (is_space rt)),
           alts (map (lit_ci rt)
             [''st'', ''street'', ''ave'', ''avenue'', ''rd'', ''road'', ''blvd'', ''dr'', ''drive'',
              ''ln'', ''lane'', ''way'']),
           wb rt]"

definition account_re :: "runtime \<Rightarrow> regex" where
  "account_re rt = seqs [wb rt, Rep (digit rt) 6 (Some 9), wb rt]"

definition PII_PATTERNS :: "runtime \<Rightarrow> (regex \<times> pystr) list" where
  "PII_PATTERNS rt =
     [(id_re rt, py ''[ID_REDACTED]''),
      (card_re rt, py ''[CARD_REDACTED]''),
      (il_phone_re rt, py ''[PHONE_REDACTED]''),
      (phone_re rt, py ''[PHONE_REDACTED]''),
      (email_re rt, py ''[EMAIL_REDACTED]''),
      (address_re rt, py ''[ADDRESS_REDACTED]''),
      (account_re rt, py ''[ACCOUNT_REDACTED]'')]"

definition script_re :: "runtime \<Rightarrow> regex" where
  "script_re rt =
     seqs [lit ''<'', Alt (lit_ci rt ''script'') (lit_ci rt ''style''),
           rep0 (Cls (\<lambda>c. c \<noteq> ord CHR ''>'')), lit ''>'',
           Lazy (Cls (\<lambda>c. True)) 0 None,
           lit ''</'', Alt (lit_ci rt ''script'') (lit_ci rt ''style''), lit ''>'']"

definition tag_re :: regex where
  "tag_re = seqs [lit ''<'', rep1 (Cls (\<lambda>c. c \<noteq> ord CHR ''>'')), lit ''>'']"

definition newlines_re :: regex where
  "newlines_re = Rep (Chr 10) 3 None"

definition strip_html_tags :: "runtime \<Rightarrow> pystr \<Rightarrow> pystr" where
  "strip_html_tags rt text =
     (let text = html_unescape rt text;
          text = re_sub (script_re rt) [] text;
          text = re_sub tag_re [] text;
          text = re_sub newlines_re [10, 10] text
      in strip rt text)"

definition check_prompt_injection :: "runtime \<Rightarrow> pystr \<Rightarrow> bool" where
  "check_prompt_injection rt text =
     (let text_lower = str_lower rt text
      in list_ex (\<lambda>phrase. contains phrase text_lower) INJECTION_PHRASES)"

fun redact_loop :: "(regex \<times> pystr) list \<Rightarrow> pystr \<times> pystr list \<Rightarrow> pystr \<times> pystr list" where
  "redact_loop [] (redacted, notices) = (redacted, notices)"
| "redact_loop ((pattern, placeholder) # rest) (redacted, notices) =
     (let matches = findall pattern redacted
      in if matches \<noteq> []
         then redact_loop rest (re_sub pattern placeholder redacted, notices @ [placeholder])
         else redact_loop rest (redacted, notices))"

fun dedup_loop :: "pystr list \<Rightarrow> pystr set \<Rightarrow> pystr list \<Rightarrow> pystr list" where
  "dedup_loop [] seen unique_notices = unique_notices"
| "dedup_loop (n # ns) seen unique_notices =
     (if n \<notin> seen then dedup_loop ns (insert n seen) (unique_notices @ [n])
      else dedup_loop ns seen unique_notices)"

definition redact_pii :: "runtime \<Rightarrow> pystr \<Rightarrow> pystr \<times> pystr list" where
  "redact_pii rt text =
     (let (redacted, notices) = redact_loop (PII_PATTERNS rt) (text, [])
      in (redacted, dedup_loop notices {} []))"

definition WARNING :: pystr where
  "WARNING = py ''[WARNING: Email content was flagged as potentially malicious and has been redacted.]''"

definition sanitize_email_content :: "runtime \<Rightarrow> pystr \<Rightarrow> pystr" where
  "sanitize_email_content rt text =
     (let clean_text = strip_html_tags rt text
      in if check_prompt_injection rt clean_text then WARNING
         else (let (redacted_text, notices) = redact_pii rt clean_text
               in if notices \<noteq> []
                  then redacted_text @ [10, 10]
                       @ py ''[Note: The following sensitive fields were redacted before processing: ''
                       @ join (py '', '') notices @ py '']''
                  else redacted_text))"

section \<open>validator.py\<close>

record ValidationResult =
  is_valid :: bool
  warnings :: "pystr list"
  errors :: "pystr list"

text \<open>The two patterns of \<open>validate_draft\<close>; they are compiled without flags.\<close>

definition placeholder_re :: regex where
  "placeholder_re =
     alts [seqs [lit ''{'', rep1 (Cls (\<lambda>c. c \<noteq> ord CHR ''}'')), lit ''}''],
           seqs [lit ''['', Cls ascii_upper, rep1 (Cls (\<lambda>c. ascii_upper c \<or> c = ord CHR ''_'')), lit '']''],
           seqs [lit ''<'', Cls ascii_upper, rep1 (Cls (\<lambda>c. ascii_upper c \<or> c = ord CHR ''_'')), lit ''>'']]"

definition marker_re :: regex where
  "marker_re =
     alts [lit ''[answer needed]'', lit ''[response needed]'', lit ''[todo]'', lit ''[fill in]'']"

text \<open>\<open>str(n)\<close> for a non-negative integer.\<close>

function str_of_nat :: "nat \<Rightarrow> pystr" where
  "str_of_nat n = (if n < 10 then [48 + n] else str_of_nat (n div 10) @ [48 + n mod 10])"
  by pat_completeness auto
termination
  by (relation "measure id") auto

definition too_short :: "runtime \<Rightarrow> pystr \<Rightarrow> bool" where
  "too_short rt draft = (draft = [] \<or> length (strip rt draft) < 20)"

definition validate_draft :: "runtime \<Rightarrow> pystr \<Rightarrow> ValidationResult" where
  "validate_draft rt draft =
     (let errors = [];
          warnings = [];
          errors = (if too_short rt draft
                    then errors @ [py ''Draft is too short or empty.''] else errors);
          placeholders = findall placeholder_re draft;
          errors = (if placeholders \<noteq> []
                    then errors @ [py ''Unfilled placeholders found: ''
                                   @ join (py '', '') (set_iter rt placeholders)]
                    else errors);
          answer_markers = findall marker_re (str_lower rt draft);
          errors = (if answer_markers \<noteq> []
                    then errors @ [py ''Draft contains unanswered markers that must be filled in.'']
                    else errors);
          word_count = length (split rt draft);
          warnings = (if word_count > 300
                      then warnings @ [py ''Draft is quite long ('' @ str_of_nat word_count
                                       @ py '' words). Consider shortening it.'']
                      else warnings);
          is_valid = (length errors = 0)
      in \<lparr> is_valid = is_valid, warnings = warnings, errors = errors \<rparr>)"

section \<open>gmail_tools.py\<close>

text \<open>\<open>s.rfind(c)\<close>: the last index of \<open>c\<close>, or \<open>-1\<close>.\<close>

fun rfind_acc :: "pychar \<Rightarrow> pystr \<Rightarrow> nat \<Rightarrow> int \<Rightarrow> int" where
  "rfind_acc c [] i found = found"
| "rfind_acc c (x # s) i found = rfind_acc c s (Suc i) (if x = c then int i else found)"

definition rfind :: "pychar \<Rightarrow> pystr \<Rightarrow> int" where
  "rfind c s = rfind_acc c s 0 (-1)"

definition clean_snippet :: "runtime \<Rightarrow> pystr \<Rightarrow> nat \<Rightarrow> pystr" where
  "clean_snippet rt raw_snippet max_length =
     (let decoded = html_unescape rt raw_snippet
      in if length decoded \<le> max_length then decoded
         else (let truncated = take max_length decoded;
                   last_space = rfind 32 truncated;
                   truncated = (if last_space > int (max_length div 2)
                                then take (nat last_space) truncated else truncated)
               in truncated @ py ''...''))"

text \<open>
  \<open>_levenshtein\<close> fills a table of \<open>len(a) + 1\<close> rows and \<open>len(b) + 1\<close> columns in place.
  Every index the loops use is inside the table.
\<close>

definition dp_set :: "nat list list \<Rightarrow> nat \<Rightarrow> nat \<Rightarrow> nat \<Rightarrow> nat list list" where
  "dp_set dp i j v = dp[i := (dp ! i)[j := v]]"

definition dp_cell :: "pystr \<Rightarrow> pystr \<Rightarrow> nat \<Rightarrow> nat \<Rightarrow> nat list list \<Rightarrow> nat list list" where
  "dp_cell a b i j dp =
     (let cost = (if a ! (i - 1) = b ! (j - 1) then 0 else 1)
      in dp_set dp i j (min (dp ! (i - 1) ! j + 1) (min (dp ! i ! (j - 1) + 1) (dp ! (i - 1) ! (j - 1) + cost))))"

definition levenshtein :: "pystr \<Rightarrow> pystr \<Rightarrow> nat" where
  "levenshtein a b =
     (let rows = length a + 1;
          cols = length b + 1;
          dp = replicate rows (replicate cols 0);
          dp = fold (\<lambda>i dp. dp_set dp i 0 i) [0..<rows] dp;
          dp = fold (\<lambda>j dp. dp_set dp 0 j j) [0..<cols] dp;
          dp = fold (\<lambda>i dp. fold (\<lambda>j dp. dp_cell a b i j dp) [1..<cols] dp) [1..<rows] dp
      in last (last dp))"

text \<open>The state of the two loops of \<open>_suggest_correction\<close> is \<open>(best_word, best_score)\<close>;
  the score \<open>None\<close> is the initial \<open>float("inf")\<close>.\<close>

definition suggest_word :: "pystr \<Rightarrow> pystr \<Rightarrow> pystr \<times> nat option \<Rightarrow> pystr \<times> nat option" where
  "suggest_word query_lower word st =
     (if length word < 3 then st
      else (let distance = levenshtein query_lower word;
                max_allowed = min 2 (length query_lower div 2)
            in if distance \<le> max_allowed
                  \<and> (case snd st of None \<Rightarrow> True | Some best_score \<Rightarrow> distance < best_score)
               then (word, Some distance) else st))"

definition suggest_correction :: "runtime \<Rightarrow> pystr \<Rightarrow> pystr list \<Rightarrow> pystr" where
  "suggest_correction rt query found_subjects =
     (let query_lower = str_lower rt query
      in fst (fold (\<lambda>subject st. fold (suggest_word query_lower) (split rt (str_lower rt subject)) st)
                   found_subjects ([], None)))"

text \<open>
  What the mailbox provider returns. A message is a dict: it carries its \<open>id\<close>, the
  header list of its payload (empty when the payload or the list is absent), its snippet
  (empty when absent) and further fields, which are the extension of the record. The
  functions below are defined for every extension, and \<open>==\<close> on two messages compares
  all the fields, the extension included. A request either raises or returns.
\<close>

datatype exn = HttpError pystr | Error pystr

record gmessage =
  msg_id :: pystr
  headers :: "(pystr \<times> pystr) list"
  snippet :: pystr

text \<open>\<open>next((h['value'] for h in headers if h['name'] == name), default)\<close>.\<close>

fun header :: "pystr \<Rightarrow> (pystr \<times> pystr) list \<Rightarrow> pystr \<Rightarrow> pystr" where
  "header nm [] dflt = dflt"
| "header nm ((n, v) # hs) dflt = (if n = nm then v else header nm hs dflt)"

text \<open>
  \<open>get_last_reply\<close> and \<open>check_already_replied\<close> on the answers of the provider to the
  profile request (the \<open>emailAddress\<close> field, empty when absent) and to the thread
  request (the message list).
\<close>

definition get_last_reply :: "runtime \<Rightarrow> exn + pystr \<Rightarrow> exn + 'a gmessage_scheme list \<Rightarrow> pystr" where
  "get_last_reply rt profile thread =
     (case profile of Inl e \<Rightarrow> []
      | Inr email_address \<Rightarrow>
     (case thread of Inl e \<Rightarrow> []
      | Inr messages \<Rightarrow>
        (let user_email = str_lower rt email_address
         in if messages = [] then []
            else (let first_sender = str_lower rt (header (py ''From'') (headers (hd messages)) []);
                      user_created_thread = contains user_email first_sender
                  in if user_created_thread \<and> length messages = 1 then []
                     else (let last_msg = last messages;
                               sender = str_lower rt (header (py ''From'') (headers last_msg) [])
                           in if contains user_email sender
                              then (if user_created_thread \<and> last_msg = hd messages then []
                                    else clean_snippet rt (snippet last_msg) 120)
                              else [])))))"

fun replied_loop :: "runtime \<Rightarrow> pystr \<Rightarrow> 'a gmessage_scheme list \<Rightarrow> bool" where
  "replied_loop rt user_email [] = False"
| "replied_loop rt user_email (msg # msgs) =
     (let sender = str_lower rt (header (py ''From'') (headers msg) [])
      in if contains user_email sender then True else replied_loop rt user_email msgs)"

definition check_already_replied :: "runtime \<Rightarrow> exn + pystr \<Rightarrow> exn + 'a gmessage_scheme list \<Rightarrow> bool" where
  "check_already_replied rt profile thread =
     (case profile of Inl e \<Rightarrow> False
      | Inr email_address \<Rightarrow>
     (case thread of Inl e \<Rightarrow> False
      | Inr messages \<Rightarrow> replied_loop rt (str_lower rt email_address) (tl messages)))"

text \<open>
  \<open>send_reply\<close>. The message handed to the provider is kept as its header fields and
  content rather than as the base64 text of its bytes. \<open>EmailMessage\<close> raises
  \<open>ValueError\<close> when a header is assigned a value \<open>v\<close> with \<open>len(v.splitlines()) > 1\<close>,
  that is, a value with a line break before its end (a value that only ends in a line
  break is accepted); like any other exception it ends in the \<open>Send error\<close> text. The
  other exceptions of \<open>EmailMessage\<close> (a recipient that its address parser cannot read,
  a character that cannot be encoded) are outside the model. The optional arguments
  default to \<open>None\<close>; \<open>None\<close> and the empty string are both false. The provider is the
  outcome of \<open>get_gmail_service\<close>: an exception, or the \<open>send\<close> request.
\<close>

record email_message =
  content :: pystr
  hdr_To :: pystr
  hdr_Subject :: pystr
  hdr_In_Reply_To :: "pystr option"
  hdr_References :: "pystr option"

record send_body =
  raw :: email_message
  threadId :: "pystr option"

definition line_break :: "pychar \<Rightarrow> bool" where
  "line_break c = (c \<in> {10, 11, 12, 13, 28, 29, 30, 133, 8232, 8233})"

text \<open>\<open>str.splitlines()\<close>: the lines of a text without their line breaks; a carriage
  return followed by a line feed is one line break, and a line break at the end of the
  text does not start a line.\<close>

fun splitlines_acc :: "pystr \<Rightarrow> pystr \<Rightarrow> pystr list" where
  "splitlines_acc w [] = (if w = [] then [] else [rev w])"
| "splitlines_acc w [c] = (if line_break c then [rev w] else [rev (c # w)])"
| "splitlines_acc w (c # d # s) =
     (if c = 13 \<and> d = 10 then rev w # splitlines_acc [] s
      else if line_break c then rev w # splitlines_acc [] (d # s)
      else splitlines_acc (c # w) (d # s))"

definition splitlines :: "pystr \<Rightarrow> pystr list" where
  "splitlines s = splitlines_acc [] s"

definition header_refused :: "pystr \<Rightarrow> bool" where
  "header_refused v = (1 < length (splitlines v))"

definition exn_text :: "exn \<Rightarrow> pystr" where
  "exn_text e = (case e of HttpError t \<Rightarrow> t | Error t \<Rightarrow> t)"

definition truthy :: "pystr option \<Rightarrow> bool" where
  "truthy x = (case x of None \<Rightarrow> False | Some s \<Rightarrow> s \<noteq> [])"

definition reply_subject :: "runtime \<Rightarrow> pystr \<Rightarrow> pystr" where
  "reply_subject rt subject =
     (if take 3 subject = py ''Re:'' then strip rt subject else py ''Re: '' @ strip rt subject)"

definition build_reply :: "runtime \<Rightarrow> pystr \<Rightarrow> pystr \<Rightarrow> pystr \<Rightarrow> pystr option \<Rightarrow> pystr option
    \<Rightarrow> exn + send_body" where
  "build_reply rt to subject body message_id thread_id =
     (if header_refused (strip rt to) \<or> header_refused (reply_subject rt subject)
         \<or> (truthy message_id \<and> header_refused (the message_id))
      then Inl (Error (py ''Header values may not contain linefeed or carriage return characters''))
      else Inr \<lparr> raw = \<lparr> content = body, hdr_To = strip rt to,
                          hdr_Subject = reply_subject rt subject,
                          hdr_In_Reply_To = (if truthy message_id then message_id else None),
                          hdr_References = (if truthy message_id then message_id else None) \<rparr>,
                 threadId = (if truthy thread_id then thread_id else None) \<rparr>)"

definition send_error :: "exn \<Rightarrow> pystr" where
  "send_error e = (case e of HttpError t \<Rightarrow> py ''Gmail API error: '' @ t
                   | Error t \<Rightarrow> py ''Send error: '' @ t)"

text \<open>The result is the returned text and the request that reached the provider, if any.\<close>

definition send_reply :: "runtime \<Rightarrow> exn + (send_body \<Rightarrow> exn + unit) \<Rightarrow> pystr \<Rightarrow> pystr \<Rightarrow> pystr
    \<Rightarrow> pystr option \<Rightarrow> pystr option \<Rightarrow> pystr \<times> send_body option" where
  "send_reply rt service to subject body message_id thread_id =
     (case service of Inl e \<Rightarrow> (send_error e, None)
      | Inr send \<Rightarrow>
     (case build_reply rt to subject body message_id thread_id of Inl e \<Rightarrow> (send_error e, None)
      | Inr request \<Rightarrow>
     (case send request of Inl e \<Rightarrow> (send_error e, Some request)
      | Inr u \<Rightarrow> (py ''Reply sent successfully to '' @ to, Some request))))"

section \<open>agent.py\<close>

text \<open>
  A tool call of the model carries its arguments as JSON text. \<open>json.loads\<close> and the
  three tools (which call the mailbox) belong to the environment: \<open>json_loads\<close> raises or
  returns the parsed value, a tool applied to the parsed arguments raises (for instance
  \<open>TypeError\<close> on arguments that do not fit its signature) or returns its text.
\<close>

datatype json = JNull | JBool bool | JNum int | JStr pystr | JArr "json list" | JObj "(pystr \<times> json) list"

record tool_call =
  call_id :: pystr
  name :: pystr
  arguments :: pystr

datatype message =
    SystemMsg pystr
  | UserMsg pystr
  | AssistantMsg pystr "tool_call list"
  | ToolMsg pystr pystr

record env =
  json_loads :: "pystr \<Rightarrow> exn + json"
  search_emails :: "json \<Rightarrow> exn + pystr"
  read_email_content :: "json \<Rightarrow> exn + pystr"
  send_reply_tool :: "json \<Rightarrow> exn + pystr"
  create :: "message list \<Rightarrow> nat \<Rightarrow> exn + pystr \<times> tool_call list"

definition TOOL_FUNCTIONS :: "env \<Rightarrow> pystr \<Rightarrow> (json \<Rightarrow> exn + pystr) option" where
  "TOOL_FUNCTIONS ev tool_name =
     (if tool_name = py ''search_emails'' then Some (search_emails ev)
      else if tool_name = py ''read_email_content'' then Some (read_email_content ev)
      else if tool_name = py ''send_reply'' then Some (send_reply_tool ev)
      else None)"

definition run_tool :: "env \<Rightarrow> pystr \<Rightarrow> json \<Rightarrow> pystr" where
  "run_tool ev tool_name tool_args =
     (case TOOL_FUNCTIONS ev tool_name of
        None \<Rightarrow> py ''Unknown tool: '' @ tool_name
      | Some fn \<Rightarrow>
          (case fn tool_args of
             Inl e \<Rightarrow> py ''Error running '' @ tool_name @ py '': '' @ exn_text e
           | Inr result \<Rightarrow> result))"

text \<open>
  The \<open>for\<close> loop of \<open>chat\<close> over the tool calls of one assistant message. The
  conversation is a list that the loop extends in place, so an exception leaves it as it
  was when the exception was raised: \<open>Inl (e, messages)\<close>.
\<close>

fun tool_loop :: "env \<Rightarrow> message list \<Rightarrow> tool_call list \<Rightarrow> exn \<times> message list + message list" where
  "tool_loop ev messages [] = Inr messages"
| "tool_loop ev messages (tc # tcs) =
     (case json_loads ev (arguments tc) of
        Inl e \<Rightarrow> Inl (e, messages)
      | Inr tool_args \<Rightarrow>
          tool_loop ev (messages @ [ToolMsg (call_id tc) (run_tool ev (name tc) tool_args)]) tcs)"

text \<open>\<open>_call_openai_with_retry\<close>: \<open>create ev messages k\<close> is the outcome of the
  \<open>k\<close>-th attempt; \<open>left\<close> counts the attempts that remain of \<open>max_retries\<close>.\<close>

fun retry_loop :: "env \<Rightarrow> message list \<Rightarrow> nat \<Rightarrow> nat \<Rightarrow> nat \<Rightarrow> exn option
    \<Rightarrow> exn + pystr \<times> tool_call list" where
  "retry_loop ev messages max_retries attempt 0 last_error =
     Inl (Error (py ''OpenAI API unavailable after '' @ str_of_nat max_retries @ py '' attempts: ''
                 @ (case last_error of None \<Rightarrow> py ''None'' | Some e \<Rightarrow> exn_text e)))"
| "retry_loop ev messages max_retries attempt (Suc left) last_error =
     (case create ev messages attempt of
        Inr response \<Rightarrow> Inr response
      | Inl e \<Rightarrow> retry_loop ev messages max_retries (Suc attempt) left (Some e))"

definition call_openai_with_retry :: "env \<Rightarrow> message list \<Rightarrow> exn + pystr \<times> tool_call list" where
  "call_openai_with_retry ev messages = retry_loop ev messages 3 1 3 None"

text \<open>One iteration of the \<open>while True\<close> loop of \<open>chat\<close>, after the model has answered:
  the loop returns, raises, or goes on with the extended conversation.\<close>

datatype outcome =
    Return pystr "message list"
  | Raise exn "message list"
  | Continue "message list"

definition chat_iteration :: "env \<Rightarrow> message list \<Rightarrow> pystr \<times> tool_call list \<Rightarrow> outcome" where
  "chat_iteration ev messages response =
     (let messages = messages @ [AssistantMsg (fst response) (snd response)]
      in if snd response = [] then Return (fst response) messages
         else (case tool_loop ev messages (snd response) of
                 Inl (e, messages) \<Rightarrow> Raise e messages
               | Inr messages \<Rightarrow> Continue messages))"

text \<open>\<open>chat\<close>: the loop need not end (the model may ask for tools forever), so its
  result is optional: \<open>None\<close> when it does not return.\<close>

partial_function (option) chat :: "env \<Rightarrow> message list \<Rightarrow> (exn \<times> message list + pystr \<times> message list) option" where
  "chat ev messages =
     (case call_openai_with_retry ev messages of
        Inl e \<Rightarrow> Some (Inl (e, messages))
      | Inr response \<Rightarrow>
          (case chat_iteration ev messages response of
             Return text messages' \<Rightarrow> Some (Inr (text, messages'))
           | Raise e messages' \<Rightarrow> Some (Inl (e, messages'))
           | Continue messages' \<Rightarrow> chat ev messages'))"

text \<open>An environment for evaluation: \<open>json.loads\<close> on the two argument texts used below
  (\<open>{}\<close> is the empty object, \<open>{\<close> is not JSON), and a model that answers at once. The
  only arguments that reach a tool are then the empty object, on which each of the three
  tools raises \<open>TypeError\<close> for its missing parameters; \<open>quoted\<close> puts a name between
  apostrophes.\<close>

definition quoted :: "string \<Rightarrow> pystr" where
  "quoted w = [39] @ py w @ [39]"

definition plain_env :: env where
  "plain_env =
     \<lparr> json_loads = (\<lambda>s. if s = py ''{}'' then Inr (JObj [])
                          else Inl (Error (py ''Expecting property name enclosed in double quotes''))),
       search_emails = (\<lambda>a. Inl (Error (py ''search_emails() missing 1 required positional argument: ''
                                           @ quoted ''query''))),
       read_email_content = (\<lambda>a. Inl (Error (py ''read_email_content() missing 1 required positional argument: ''
                                                @ quoted ''message_id''))),
       send_reply_tool = (\<lambda>a. Inl (Error (py ''send_reply() missing 3 required positional arguments: ''
                                             @ quoted ''to'' @ py '', '' @ quoted ''subject'' @ py '', and ''
                                             @ quoted ''body''))),
       create = (\<lambda>ms k. Inr (py ''done'', [])) \<rparr>"

section \<open>Notions used to state the properties\<close>

text \<open>
  Modelled from the spec: the Levenshtein distance. \<open>edits a b n\<close> holds when \<open>a\<close> is
  turned into \<open>b\<close> by \<open>n\<close> edits of one character each (a deletion, an insertion or a
  replacement), the two texts being read from left to right; the distance is the least
  such \<open>n\<close>. \<open>lev_rec a b i j\<close> is the usual recurrence for the distance between the
  first \<open>i\<close> characters of \<open>a\<close> and the first \<open>j\<close> characters of \<open>b\<close>. Neither is taken
  from \<open>_levenshtein\<close>, which fills a table.
\<close>

inductive edits :: "pystr \<Rightarrow> pystr \<Rightarrow> nat \<Rightarrow> bool" where
  edits_Nil: "edits [] [] 0"
| edits_delete: "edits a b n \<Longrightarrow> edits (a @ [x]) b (Suc n)"
| edits_insert: "edits a b n \<Longrightarrow> edits a (b @ [y]) (Suc n)"
| edits_replace: "edits a b n \<Longrightarrow> edits (a @ [x]) (b @ [y]) (Suc n)"
| edits_keep: "edits a b n \<Longrightarrow> edits (a @ [x]) (b @ [x]) n"

fun lev_rec :: "pystr \<Rightarrow> pystr \<Rightarrow> nat \<Rightarrow> nat \<Rightarrow> nat" where
  "lev_rec a b 0 j = j"
| "lev_rec a b (Suc i) 0 = Suc i"
| "lev_rec a b (Suc i) (Suc j) =
     min (lev_rec a b i (Suc j) + 1)
         (min (lev_rec a b (Suc i) j + 1) (lev_rec a b i j + (if a ! i = b ! j then 0 else 1)))"

definition edit_distance :: "pystr \<Rightarrow> pystr \<Rightarrow> nat" where
  "edit_distance a b = lev_rec a b (length a) (length b)"

text \<open>
  Modelled from the spec: the candidate words of the correction engine (the words of the
  lower-cased subjects, in the order of the subjects), and the acceptance test for a
  candidate \<open>w\<close> and a lower-cased query \<open>q\<close>, with the bound taken from the length of
  \<open>q\<close>.
\<close>

definition spec_candidates :: "runtime \<Rightarrow> pystr list \<Rightarrow> pystr list" where
  "spec_candidates rt subjects = concat (map (\<lambda>subject. split rt (str_lower rt subject)) subjects)"

definition spec_acceptable :: "pystr \<Rightarrow> pystr \<Rightarrow> bool" where
  "spec_acceptable q w = (3 \<le> length w \<and> edit_distance q w \<le> min 2 (length q div 2))"

text \<open>The test of \<open>_suggest_correction\<close> on a word, without the comparison with the best
  score, and the invariant of its loops: \<open>st\<close> is the state after the words \<open>xs\<close>.\<close>

definition accepted :: "pystr \<Rightarrow> pystr \<Rightarrow> bool" where
  "accepted q w = (3 \<le> length w \<and> levenshtein q w \<le> min 2 (length q div 2))"

definition best_inv :: "pystr \<Rightarrow> pystr list \<Rightarrow> pystr \<times> nat option \<Rightarrow> bool" where
  "best_inv q xs st =
     (case snd st of
        None \<Rightarrow> fst st = [] \<and> (\<forall>w\<in>set xs. \<not> accepted q w)
      | Some d \<Rightarrow> (\<exists>i<length xs. fst st = xs ! i \<and> d = levenshtein q (xs ! i)
            \<and> accepted q (xs ! i)
            \<and> (\<forall>j<length xs. accepted q (xs ! j) \<longrightarrow> d \<le> levenshtein q (xs ! j))
            \<and> (\<forall>j<i. accepted q (xs ! j) \<longrightarrow> d < levenshtein q (xs ! j))))"

text \<open>The table of \<open>_levenshtein\<close>: \<open>shape R C dp\<close> says that \<open>dp\<close> has \<open>R\<close> rows of \<open>C\<close>
  cells; \<open>filled a b R C i j dp\<close> says that row 0, column 0, the rows before row \<open>i\<close> and
  the cells of row \<open>i\<close> before column \<open>j\<close> hold the distances of the prefixes.\<close>

definition shape :: "nat \<Rightarrow> nat \<Rightarrow> nat list list \<Rightarrow> bool" where
  "shape R C dp = (length dp = R \<and> (\<forall>i<R. length (dp ! i) = C))"

definition filled :: "pystr \<Rightarrow> pystr \<Rightarrow> nat \<Rightarrow> nat \<Rightarrow> nat \<Rightarrow> nat \<Rightarrow> nat list list \<Rightarrow> bool" where
  "filled a b R C i j dp =
     (shape R C dp \<and>
      (\<forall>i'<R. \<forall>j'<C. (i' = 0 \<or> j' = 0 \<or> i' < i \<or> (i' = i \<and> j' < j))
          \<longrightarrow> dp ! i' ! j' = lev_rec a b i' j'))"

text \<open>An interpreter for a query with the letter U+0130 (capital I with a dot above), which
  \<open>str.lower\<close> turns into the two code points U+0069 U+0307; otherwise as
  \<open>plain_runtime\<close>.\<close>

definition dotted_runtime :: runtime where
  "dotted_runtime = plain_runtime
     \<lparr> str_lower := (\<lambda>s. concat (map (\<lambda>c. if c = 304 then [105, 775]
                                           else if ascii_upper c then [c + 32] else [c]) s)) \<rparr>"

text \<open>\<open>needs D r\<close>: every match of \<open>r\<close> contains a character of the class \<open>D\<close>
  (a sufficient test on the shape of the pattern).\<close>

fun needs :: "(pychar \<Rightarrow> bool) \<Rightarrow> regex \<Rightarrow> bool" where
  "needs D Eps = False"
| "needs D (Chr c) = D c"
| "needs D (Cls P) = (\<forall>c. P c \<longrightarrow> D c)"
| "needs D (Seq a b) = (needs D a \<or> needs D b)"
| "needs D (Alt a b) = (needs D a \<and> needs D b)"
| "needs D (Rep r lo hi) = (0 < lo \<and> needs D r)"
| "needs D (Lazy r lo hi) = (0 < lo \<and> needs D r)"
| "needs D (Bnd w) = False"

text \<open>The characters of C10: neither an ASCII decimal digit nor the at sign; and the
  characters that the redaction patterns look for.\<close>

definition plain_char :: "pychar \<Rightarrow> bool" where
  "plain_char c = (\<not> ascii_digit c \<and> c \<noteq> ord CHR ''@'')"

definition digit_or_at :: "runtime \<Rightarrow> pychar \<Rightarrow> bool" where
  "digit_or_at rt c = (is_digit rt c \<or> c = ord CHR ''@'')"

text \<open>The text after the first \<open>n\<close> redaction rules have been applied, and whether rule
  \<open>n\<close> (counted from 0) matched the text it was applied to.\<close>

definition text_after :: "runtime \<Rightarrow> nat \<Rightarrow> pystr \<Rightarrow> pystr" where
  "text_after rt n text = fst (redact_loop (take n (PII_PATTERNS rt)) (text, []))"

definition rule_matched :: "runtime \<Rightarrow> nat \<Rightarrow> pystr \<Rightarrow> bool" where
  "rule_matched rt n text = (findall (fst (PII_PATTERNS rt ! n)) (text_after rt n text) \<noteq> [])"

text \<open>The lower-cased sender of a message, as both checks read it, and the condition
  under which \<open>get_last_reply\<close> has a snippet to return beyond what
  \<open>check_already_replied\<close> tests: the last message of the thread is from the account
  owner, it is not equal to a first message that is from the owner too, and its decoded
  snippet is not empty.\<close>

definition sender_of :: "runtime \<Rightarrow> 'a gmessage_scheme \<Rightarrow> pystr" where
  "sender_of rt msg = str_lower rt (header (py ''From'') (headers msg) [])"

definition owner_wrote_last :: "runtime \<Rightarrow> exn + pystr \<Rightarrow> exn + 'a gmessage_scheme list \<Rightarrow> bool" where
  "owner_wrote_last rt profile thread =
     (case profile of Inl e \<Rightarrow> False
      | Inr email_address \<Rightarrow>
     (case thread of Inl e \<Rightarrow> False
      | Inr messages \<Rightarrow>
          messages \<noteq> []
          \<and> contains (str_lower rt email_address) (sender_of rt (last messages))
          \<and> \<not> (contains (str_lower rt email_address) (sender_of rt (hd messages))
                 \<and> last messages = hd messages)
          \<and> html_unescape rt (snippet (last messages)) \<noteq> []))"

text \<open>Modelled from the spec: the boolean-only check, "scanning every message after
  index 0 for a sender containing \<open>self_email\<close>"; it is negative when a request raises.\<close>

definition spec_already_replied :: "runtime \<Rightarrow> exn + pystr \<Rightarrow> exn + 'a gmessage_scheme list \<Rightarrow> bool" where
  "spec_already_replied rt profile thread =
     (case profile of Inl e \<Rightarrow> False
      | Inr email_address \<Rightarrow>
     (case thread of Inl e \<Rightarrow> False
      | Inr messages \<Rightarrow>
          (\<exists>msg\<in>set (tl messages). contains (str_lower rt email_address) (sender_of rt msg))))"

text \<open>A message of a thread, for the examples: its id, its sender and its snippet.\<close>

definition msg_from :: "string \<Rightarrow> string \<Rightarrow> string \<Rightarrow> gmessage" where
  "msg_from i a s = \<lparr> msg_id = py i, headers = [(py ''From'', py a)], snippet = py s \<rparr>"

text \<open>\<open>re.sub\<close> continued from the middle of a text, after the character \<open>pv\<close>;
  at the start of the text it is \<open>re_sub\<close>.\<close>

definition sub_from :: "regex \<Rightarrow> pystr \<Rightarrow> pychar option \<Rightarrow> pystr \<Rightarrow> pystr" where
  "sub_from r repl pv s = concat (map (\<lambda>x. case x of Inl c \<Rightarrow> [c] | Inr w \<Rightarrow> repl) (scan r pv s))"

text \<open>A text in which no tag is left: every \<open><\<close> is followed at once by \<open>>\<close>, or by no
  \<open>>\<close> at all. A text without a run of three newlines, and the length of the run of
  newlines at the start of a text.\<close>

fun tagfree :: "pystr \<Rightarrow> bool" where
  "tagfree [] = True"
| "tagfree (c # s) = ((c = 60 \<longrightarrow> 62 \<notin> set s \<or> take 1 s = [62]) \<and> tagfree s)"

definition nlfree :: "pystr \<Rightarrow> bool" where
  "nlfree s = (\<not> contains [10, 10, 10] s)"

definition lead :: "pystr \<Rightarrow> nat" where
  "lead s = length (takeWhile (\<lambda>c. c = 10) s)"

section \<open>Evaluation of the definitions on concrete texts\<close>

lemmas string_defs = py_def ord_def ascii_digit_def ascii_upper_def ascii_lower_def ascii_letter_def
  is_digit_def is_word_def is_space_def ci_match_def ci_letter_def strip_def split_def one_of_def

lemmas regex_defs = lit_def lit_ci_def opt_def rep1_def rep0_def findall_def re_sub_def match_len_def
  at_boundary_def dec_def advances_def wb_def digit_def

lemmas sanitizer_defs = redact_pii_def PII_PATTERNS_def id_re_def card_re_def il_phone_re_def
  phone_re_def email_re_def address_re_def account_re_def script_re_def tag_re_def newlines_re_def
  strip_html_tags_def check_prompt_injection_def INJECTION_PHRASES_def WARNING_def
  sanitize_email_content_def

lemmas validator_defs = placeholder_re_def marker_re_def too_short_def

lemmas gmail_defs = levenshtein_def dp_set_def dp_cell_def suggest_word_def suggest_correction_def
  get_last_reply_def check_already_replied_def clean_snippet_def rfind_def
  reply_subject_def build_reply_def send_reply_def truthy_def line_break_def send_error_def exn_text_def
  splitlines_def header_refused_def spec_candidates_def accepted_def msg_from_def sender_of_def
  owner_wrote_last_def spec_already_replied_def

lemmas agent_defs = TOOL_FUNCTIONS_def run_tool_def chat_iteration_def plain_env_def quoted_def

section \<open>The substring test\<close>

lemma take_length_eq_iff: "(take (length w) s = w) = (\<exists>b. s = w @ b)"
proof
  assume "take (length w) s = w"
  then have "s = w @ drop (length w) s"
    by (metis append_take_drop_id)
  then show "\<exists>b. s = w @ b" ..
next
  assume "\<exists>b. s = w @ b"
  then show "take (length w) s = w" by auto
qed

lemma contains_iff: "contains w s = (\<exists>a b. s = a @ w @ b)"
proof (induction s)
  case Nil
  show ?case by auto
next
  case (Cons c s)
  show ?case
  proof
    assume "contains w (c # s)"
    then consider "take (length w) (c # s) = w" | "contains w s" by auto
    then show "\<exists>a b. c # s = a @ w @ b"
    proof cases
      case 1
      then obtain b where "c # s = w @ b" using take_length_eq_iff by blast
      then have "c # s = [] @ w @ b" by simp
      then show ?thesis by blast
    next
      case 2
      then obtain a b where "s = a @ w @ b" using Cons.IH by blast
      then have "c # s = (c # a) @ w @ b" by simp
      then show ?thesis by blast
    qed
  next
    assume "\<exists>a b. c # s = a @ w @ b"
    then obtain a b where ab: "c # s = a @ w @ b" by blast
    show "contains w (c # s)"
    proof (cases a)
      case Nil
      with ab have "take (length w) (c # s) = w" using take_length_eq_iff by auto
      then show ?thesis by simp
    next
      case (Cons x a')
      with ab have "s = a' @ w @ b" by simp
      then have "contains w s" using Cons.IH by blast
      then show ?thesis by simp
    qed
  qed
qed

section \<open>The sanitization pipeline blocks flagged texts\<close>

text \<open>
  C1. Whenever the lower-cased normalized text contains one of the injection phrases as a
  substring, \<open>sanitize_email_content\<close> returns the fixed warning sentence and nothing
  else: the redaction step is not reached, whatever digits or addresses the text holds.
  The function returns the text only; that the text is the warning is what marks the
  result as blocked.
\<close>

theorem sanitize_blocks_injection:
  assumes "phrase \<in> set INJECTION_PHRASES"
    and "str_lower rt (strip_html_tags rt text) = a @ phrase @ b"
  shows "sanitize_email_content rt text = WARNING"
proof -
  have "contains phrase (str_lower rt (strip_html_tags rt text))"
    using assms(2) contains_iff by blast
  with assms(1) have "check_prompt_injection rt (strip_html_tags rt text)"
    by (auto simp: check_prompt_injection_def list_ex_iff)
  then show ?thesis
    by (simp add: sanitize_email_content_def)
qed

theorem sanitize_blocks_injection_witness:
  "py ''act as'' \<in> set INJECTION_PHRASES
   \<and> str_lower plain_runtime (strip_html_tags plain_runtime (py ''<b>ACT</b> as 123456789''))
       = [] @ py ''act as'' @ py '' 123456789''
   \<and> sanitize_email_content plain_runtime (py ''<b>ACT</b> as 123456789'') = WARNING"
proof -
  have h1: "py ''act as'' \<in> set INJECTION_PHRASES"
    by (simp add: INJECTION_PHRASES_def)
  have h2: "str_lower plain_runtime (strip_html_tags plain_runtime (py ''<b>ACT</b> as 123456789''))
       = [] @ py ''act as'' @ py '' 123456789''"
    by (simp add: string_defs regex_defs sanitizer_defs plain_runtime_def)
  show ?thesis
    using h1 h2 sanitize_blocks_injection [OF h1 h2] by simp
qed

section \<open>The draft validator\<close>

text \<open>
  C8. The result is valid exactly when its error list is empty. Each of the three error
  checks adds its message on its own condition, whatever the other checks found, and the
  length check adds to the warnings only.
\<close>

theorem validate_draft_valid_iff_no_errors:
  "(is_valid (validate_draft rt draft) \<longleftrightarrow> errors (validate_draft rt draft) = [])
   \<and> errors (validate_draft rt draft) =
       (if too_short rt draft then [py ''Draft is too short or empty.''] else [])
       @ (if findall placeholder_re draft \<noteq> []
          then [py ''Unfilled placeholders found: ''
                @ join (py '', '') (set_iter rt (findall placeholder_re draft))]
          else [])
       @ (if findall marker_re (str_lower rt draft) \<noteq> []
          then [py ''Draft contains unanswered markers that must be filled in.''] else [])
   \<and> warnings (validate_draft rt draft) =
       (if 300 < length (split rt draft)
        then [py ''Draft is quite long ('' @ str_of_nat (length (split rt draft))
              @ py '' words). Consider shortening it.'']
        else [])"
  by (simp add: validate_draft_def Let_def)

section \<open>The correction engine\<close>

subsection \<open>The loops keep the first candidate of least distance\<close>

lemma best_inv_step:
  assumes "best_inv q xs st"
  shows "best_inv q (xs @ [w]) (suggest_word q w st)"
proof (cases "accepted q w \<and> (case snd st of None \<Rightarrow> True | Some b \<Rightarrow> levenshtein q w < b)")
  case True
  then have acc: "accepted q w" by simp
  have upd: "suggest_word q w st = (w, Some (levenshtein q w))"
    using True by (auto simp: suggest_word_def accepted_def Let_def)
  have less: "\<forall>j<length xs. accepted q (xs ! j) \<longrightarrow> levenshtein q w < levenshtein q (xs ! j)"
  proof (cases "snd st")
    case None
    with assms show ?thesis by (auto simp: best_inv_def)
  next
    case (Some d)
    with True have "levenshtein q w < d" by simp
    moreover from Some assms have "\<forall>j<length xs. accepted q (xs ! j) \<longrightarrow> d \<le> levenshtein q (xs ! j)"
      by (auto simp: best_inv_def)
    ultimately show ?thesis by fastforce
  qed
  have "\<exists>i<length (xs @ [w]). w = (xs @ [w]) ! i \<and> levenshtein q w = levenshtein q ((xs @ [w]) ! i)
      \<and> accepted q ((xs @ [w]) ! i)
      \<and> (\<forall>j<length (xs @ [w]). accepted q ((xs @ [w]) ! j) \<longrightarrow> levenshtein q w \<le> levenshtein q ((xs @ [w]) ! j))
      \<and> (\<forall>j<i. accepted q ((xs @ [w]) ! j) \<longrightarrow> levenshtein q w < levenshtein q ((xs @ [w]) ! j))"
  proof (intro exI [of _ "length xs"] conjI allI impI)
    show "length xs < length (xs @ [w])" by simp
    show "w = (xs @ [w]) ! length xs" by simp
    show "levenshtein q w = levenshtein q ((xs @ [w]) ! length xs)" by simp
    show "accepted q ((xs @ [w]) ! length xs)" using acc by simp
  next
    fix j assume "j < length (xs @ [w])" "accepted q ((xs @ [w]) ! j)"
    then show "levenshtein q w \<le> levenshtein q ((xs @ [w]) ! j)"
      using less by (cases "j < length xs") (auto simp: nth_append less_Suc_eq)
  next
    fix j assume "j < length xs" "accepted q ((xs @ [w]) ! j)"
    then show "levenshtein q w < levenshtein q ((xs @ [w]) ! j)"
      using less by (auto simp: nth_append)
  qed
  then show ?thesis
    unfolding upd best_inv_def by simp
next
  case False
  have keep: "suggest_word q w st = st"
    using False by (auto simp: suggest_word_def accepted_def Let_def split: option.splits)
  show ?thesis
  proof (cases "snd st")
    case None
    with False have "\<not> accepted q w" by simp
    with None assms show ?thesis
      unfolding keep by (auto simp: best_inv_def)
  next
    case (Some d)
    with False have nw: "accepted q w \<longrightarrow> d \<le> levenshtein q w" by auto
    from Some assms obtain i where i: "i < length xs" "fst st = xs ! i" "d = levenshtein q (xs ! i)"
      "accepted q (xs ! i)"
      "\<forall>j<length xs. accepted q (xs ! j) \<longrightarrow> d \<le> levenshtein q (xs ! j)"
      "\<forall>j<i. accepted q (xs ! j) \<longrightarrow> d < levenshtein q (xs ! j)"
      by (auto simp: best_inv_def)
    have "\<exists>i<length (xs @ [w]). fst st = (xs @ [w]) ! i \<and> d = levenshtein q ((xs @ [w]) ! i)
      \<and> accepted q ((xs @ [w]) ! i)
      \<and> (\<forall>j<length (xs @ [w]). accepted q ((xs @ [w]) ! j) \<longrightarrow> d \<le> levenshtein q ((xs @ [w]) ! j))
      \<and> (\<forall>j<i. accepted q ((xs @ [w]) ! j) \<longrightarrow> d < levenshtein q ((xs @ [w]) ! j))"
    proof (intro exI [of _ i] conjI allI impI)
      show "i < length (xs @ [w])" using i(1) by simp
      show "fst st = (xs @ [w]) ! i" using i(1,2) by (simp add: nth_append)
      show "d = levenshtein q ((xs @ [w]) ! i)" using i(1,3) by (simp add: nth_append)
      show "accepted q ((xs @ [w]) ! i)" using i(1,4) by (simp add: nth_append)
    next
      fix j assume "j < length (xs @ [w])" "accepted q ((xs @ [w]) ! j)"
      then show "d \<le> levenshtein q ((xs @ [w]) ! j)"
        using i(5) nw by (cases "j < length xs") (auto simp: nth_append less_Suc_eq)
    next
      fix j assume "j < i" "accepted q ((xs @ [w]) ! j)"
      then show "d < levenshtein q ((xs @ [w]) ! j)"
        using i(1,6) by (auto simp: nth_append)
    qed
    with Some show ?thesis
      unfolding keep best_inv_def by simp
  qed
qed

lemma best_inv_fold:
  "best_inv q xs st \<Longrightarrow> best_inv q (xs @ ys) (fold (suggest_word q) ys st)"
proof (induction ys arbitrary: xs st)
  case Nil
  then show ?case by simp
next
  case (Cons y ys)
  from Cons.prems have "best_inv q (xs @ [y]) (suggest_word q y st)"
    by (rule best_inv_step)
  then have "best_inv q ((xs @ [y]) @ ys) (fold (suggest_word q) ys (suggest_word q y st))"
    by (rule Cons.IH)
  then show ?case by simp
qed

lemma fold_subjects:
  "fold (\<lambda>subject st. fold g (h subject) st) subjects st = fold g (concat (map h subjects)) st"
  by (induction subjects arbitrary: st) simp_all

lemma suggest_correction_fold:
  "suggest_correction rt query subjects
     = fst (fold (suggest_word (str_lower rt query)) (spec_candidates rt subjects) ([], None))"
  by (simp add: suggest_correction_def spec_candidates_def fold_subjects Let_def)

text \<open>The result in terms of the test and the distance that the code computes.\<close>

lemma suggest_correction_accepted:
  "(if \<exists>w\<in>set (spec_candidates rt subjects). accepted (str_lower rt query) w
    then \<exists>i<length (spec_candidates rt subjects).
           suggest_correction rt query subjects = spec_candidates rt subjects ! i
         \<and> accepted (str_lower rt query) (spec_candidates rt subjects ! i)
         \<and> (\<forall>j<length (spec_candidates rt subjects).
               accepted (str_lower rt query) (spec_candidates rt subjects ! j)
               \<longrightarrow> levenshtein (str_lower rt query) (spec_candidates rt subjects ! i)
                    \<le> levenshtein (str_lower rt query) (spec_candidates rt subjects ! j))
         \<and> (\<forall>j<i. accepted (str_lower rt query) (spec_candidates rt subjects ! j)
               \<longrightarrow> levenshtein (str_lower rt query) (spec_candidates rt subjects ! i)
                    < levenshtein (str_lower rt query) (spec_candidates rt subjects ! j))
    else suggest_correction rt query subjects = [])"
proof -
  define q where "q = str_lower rt query"
  define cs where "cs = spec_candidates rt subjects"
  define st where "st = fold (suggest_word q) cs ([], None)"
  have "best_inv q [] ([], None)" by (simp add: best_inv_def)
  then have "best_inv q ([] @ cs) st" unfolding st_def by (rule best_inv_fold)
  then have inv: "best_inv q cs st" by simp
  have res: "suggest_correction rt query subjects = fst st"
    by (simp add: suggest_correction_fold st_def q_def cs_def)
  show ?thesis
  proof (cases "snd st")
    case None
    with inv have "fst st = []" "\<forall>w\<in>set cs. \<not> accepted q w"
      by (auto simp: best_inv_def)
    then show ?thesis using res unfolding q_def cs_def by auto
  next
    case (Some d)
    with inv obtain i where i: "i < length cs" "fst st = cs ! i" "d = levenshtein q (cs ! i)"
      "accepted q (cs ! i)"
      "\<forall>j<length cs. accepted q (cs ! j) \<longrightarrow> d \<le> levenshtein q (cs ! j)"
      "\<forall>j<i. accepted q (cs ! j) \<longrightarrow> d < levenshtein q (cs ! j)"
      by (auto simp: best_inv_def)
    have ex: "\<exists>w\<in>set cs. accepted q w"
      using i(1,4) nth_mem by blast
    have "\<exists>i<length cs. fst st = cs ! i \<and> accepted q (cs ! i)
         \<and> (\<forall>j<length cs. accepted q (cs ! j) \<longrightarrow> levenshtein q (cs ! i) \<le> levenshtein q (cs ! j))
         \<and> (\<forall>j<i. accepted q (cs ! j) \<longrightarrow> levenshtein q (cs ! i) < levenshtein q (cs ! j))"
      using i by blast
    with ex show ?thesis using res unfolding q_def cs_def by simp
  qed
qed

subsection \<open>The table of distances\<close>

text \<open>The loops of \<open>_levenshtein\<close> fill the table with the distances of the prefixes, row
  by row; the last cell of the last row is the distance of the two texts.\<close>

lemma lev_rec_col0: "lev_rec a b i 0 = i"
  by (cases i) simp_all

lemma dp_set_shape: "shape R C dp \<Longrightarrow> shape R C (dp_set dp i j v)"
proof (cases "i < length dp")
  case True
  assume "shape R C dp"
  then show ?thesis using True by (auto simp: shape_def dp_set_def nth_list_update)
next
  case False
  assume "shape R C dp"
  moreover from False have "dp[i := (dp ! i)[j := v]] = dp" by (simp add: list_update_beyond)
  ultimately show ?thesis by (simp add: dp_set_def)
qed

lemma dp_set_nth:
  "shape R C dp \<Longrightarrow> i < R \<Longrightarrow> j < C \<Longrightarrow> i' < R \<Longrightarrow> j' < C \<Longrightarrow>
   dp_set dp i j v ! i' ! j' = (if i' = i \<and> j' = j then v else dp ! i' ! j')"
  by (auto simp: shape_def dp_set_def nth_list_update)

lemma fold_upt_inv:
  assumes "P lo s" and "\<And>k s. lo \<le> k \<Longrightarrow> k < n \<Longrightarrow> P k s \<Longrightarrow> P (Suc k) (f k s)" and "lo \<le> n"
  shows "P n (fold f [lo..<n] s)"
  using assms(3,2)
proof (induction n)
  case 0
  then show ?case using assms(1) by simp
next
  case (Suc n)
  show ?case
  proof (cases "lo \<le> n")
    case True
    have "P n (fold f [lo..<n] s)"
      using True Suc.prems(2) by (intro Suc.IH) auto
    then have "P (Suc n) (f n (fold f [lo..<n] s))"
      using True by (intro Suc.prems(2)) auto
    then show ?thesis using True by simp
  next
    case False
    with Suc.prems(1) have "lo = Suc n" by simp
    then show ?thesis using assms(1) by simp
  qed
qed

lemma init_rows:
  assumes "shape R C dp" and "0 < C"
  shows "shape R C (fold (\<lambda>i dp. dp_set dp i 0 i) [0..<R] dp)
         \<and> (\<forall>i'<R. fold (\<lambda>i dp. dp_set dp i 0 i) [0..<R] dp ! i' ! 0 = i')"
proof -
  let ?P = "\<lambda>k dp. shape R C dp \<and> (\<forall>i'<k. dp ! i' ! 0 = i')"
  have "?P R (fold (\<lambda>i dp. dp_set dp i 0 i) [0..<R] dp)"
  proof (rule fold_upt_inv [where P = ?P])
    show "?P 0 dp" using assms(1) by simp
    show "0 \<le> R" by simp
  next
    fix k s assume k: "k < R" and inv: "?P k s"
    then have sh: "shape R C s" by simp
    show "?P (Suc k) (dp_set s k 0 k)"
    proof (intro conjI allI impI)
      show "shape R C (dp_set s k 0 k)" using sh by (rule dp_set_shape)
      fix i' assume "i' < Suc k"
      then have "i' < R" using k by simp
      then have "dp_set s k 0 k ! i' ! 0 = (if i' = k \<and> (0::nat) = 0 then k else s ! i' ! 0)"
        using sh k assms(2) by (intro dp_set_nth) auto
      then show "dp_set s k 0 k ! i' ! 0 = i'"
        using inv \<open>i' < Suc k\<close> by (auto simp: less_Suc_eq)
    qed
  qed
  then show ?thesis by simp
qed

lemma init_cols:
  assumes "shape R C dp" and "0 < R" and "\<forall>i'<R. dp ! i' ! 0 = i'"
  shows "filled a b R C 1 1 (fold (\<lambda>j dp. dp_set dp 0 j j) [0..<C] dp)"
proof -
  let ?P = "\<lambda>k dp. shape R C dp \<and> (\<forall>i'<R. 0 < i' \<longrightarrow> dp ! i' ! 0 = i') \<and> (\<forall>j'<k. dp ! 0 ! j' = j')"
  have "?P C (fold (\<lambda>j dp. dp_set dp 0 j j) [0..<C] dp)"
  proof (rule fold_upt_inv [where P = ?P])
    show "?P 0 dp" using assms(1,3) by simp
    show "0 \<le> C" by simp
  next
    fix k s assume k: "k < C" and inv: "?P k s"
    then have sh: "shape R C s" by simp
    have nth: "dp_set s 0 k k ! i' ! j' = (if i' = 0 \<and> j' = k then k else s ! i' ! j')"
      if "i' < R" "j' < C" for i' j'
      using sh assms(2) k that by (intro dp_set_nth) auto
    show "?P (Suc k) (dp_set s 0 k k)"
    proof (intro conjI allI impI)
      show "shape R C (dp_set s 0 k k)" using sh by (rule dp_set_shape)
    next
      fix i' assume "i' < R" "0 < i'"
      then show "dp_set s 0 k k ! i' ! 0 = i'"
        using nth [of i' 0] inv k by auto
    next
      fix j' assume "j' < Suc k"
      then show "dp_set s 0 k k ! 0 ! j' = j'"
        using nth [of 0 j'] inv k assms(2) by (auto simp: less_Suc_eq)
    qed
  qed
  then have r: "shape R C (fold (\<lambda>j dp. dp_set dp 0 j j) [0..<C] dp)"
    "\<forall>i'<R. 0 < i' \<longrightarrow> fold (\<lambda>j dp. dp_set dp 0 j j) [0..<C] dp ! i' ! 0 = i'"
    "\<forall>j'<C. fold (\<lambda>j dp. dp_set dp 0 j j) [0..<C] dp ! 0 ! j' = j'"
    by simp_all
  show ?thesis
    unfolding filled_def
  proof (intro conjI allI impI)
    show "shape R C (fold (\<lambda>j dp. dp_set dp 0 j j) [0..<C] dp)" by (rule r(1))
  next
    fix i' j' assume b: "i' < R" "j' < C" and d: "i' = 0 \<or> j' = 0 \<or> i' < 1 \<or> i' = 1 \<and> j' < 1"
    then consider "i' = 0" | "0 < i'" "j' = 0" by auto
    then show "fold (\<lambda>j dp. dp_set dp 0 j j) [0..<C] dp ! i' ! j' = lev_rec a b i' j'"
    proof cases
      case 1
      then show ?thesis using r(3) b by simp
    next
      case 2
      then show ?thesis using r(2) b by (simp add: lev_rec_col0)
    qed
  qed
qed

lemma dp_cell_filled:
  assumes f: "filled a b R C i j dp" and i: "0 < i" "i < R" and j: "0 < j" "j < C"
  shows "filled a b R C i (Suc j) (dp_cell a b i j dp)"
proof -
  from f have sh: "shape R C dp" by (simp add: filled_def)
  obtain i0 j0 where ij: "i = Suc i0" "j = Suc j0" using i(1) j(1) by (metis Suc_pred)
  have c1: "dp ! i0 ! j = lev_rec a b i0 j"
    using f i j ij by (simp add: filled_def)
  have c2: "dp ! i ! j0 = lev_rec a b i j0"
    using f i j ij by (simp add: filled_def)
  have c3: "dp ! i0 ! j0 = lev_rec a b i0 j0"
    using f i j ij by (simp add: filled_def)
  have val: "dp_cell a b i j dp = dp_set dp i j (lev_rec a b i j)"
    using c1 c2 c3 by (simp add: dp_cell_def Let_def ij)
  have nth: "dp_set dp i j (lev_rec a b i j) ! i' ! j' = (if i' = i \<and> j' = j then lev_rec a b i j else dp ! i' ! j')"
    if "i' < R" "j' < C" for i' j'
    using sh i(2) j(2) that by (rule dp_set_nth)
  show ?thesis
    unfolding filled_def val
  proof (intro conjI allI impI)
    show "shape R C (dp_set dp i j (lev_rec a b i j))" using sh by (rule dp_set_shape)
  next
    fix i' j' assume b: "i' < R" "j' < C" and d: "i' = 0 \<or> j' = 0 \<or> i' < i \<or> i' = i \<and> j' < Suc j"
    show "dp_set dp i j (lev_rec a b i j) ! i' ! j' = lev_rec a b i' j'"
    proof (cases "i' = i \<and> j' = j")
      case True
      then show ?thesis using nth [OF b] by simp
    next
      case False
      with d have "i' = 0 \<or> j' = 0 \<or> i' < i \<or> i' = i \<and> j' < j" by auto
      then have "dp ! i' ! j' = lev_rec a b i' j'" using f b unfolding filled_def by blast
      then show ?thesis using nth [OF b] False by simp
    qed
  qed
qed

lemma inner_loop_filled:
  assumes f: "filled a b R C i 1 dp" and i: "0 < i" "i < R" and C: "0 < C"
  shows "filled a b R C (Suc i) 1 (fold (\<lambda>j dp. dp_cell a b i j dp) [1..<C] dp)"
proof -
  have "filled a b R C i C (fold (\<lambda>j dp. dp_cell a b i j dp) [1..<C] dp)"
  proof (rule fold_upt_inv [where P = "\<lambda>k dp. filled a b R C i k dp"])
    show "filled a b R C i 1 dp" by (rule f)
    show "1 \<le> C" using C by simp
  next
    fix k s assume "1 \<le> k" "k < C" "filled a b R C i k s"
    then show "filled a b R C i (Suc k) (dp_cell a b i k s)"
      using i by (intro dp_cell_filled) auto
  qed
  then show ?thesis
    unfolding filled_def by (auto simp: less_Suc_eq)
qed

lemma outer_loop_filled:
  assumes f: "filled a b R C 1 1 dp" and R: "0 < R" and C: "0 < C"
  shows "filled a b R C R 1 (fold (\<lambda>i dp. fold (\<lambda>j dp. dp_cell a b i j dp) [1..<C] dp) [1..<R] dp)"
proof (rule fold_upt_inv [where P = "\<lambda>k dp. filled a b R C k 1 dp"])
  show "filled a b R C 1 1 dp" by (rule f)
  show "1 \<le> R" using R by simp
next
  fix k s assume "1 \<le> k" "k < R" "filled a b R C k 1 s"
  then show "filled a b R C (Suc k) 1 (fold (\<lambda>j dp. dp_cell a b k j dp) [1..<C] s)"
    using C by (intro inner_loop_filled) auto
qed

lemma levenshtein_edit_distance: "levenshtein a b = edit_distance a b"
proof -
  define R where "R = length a + 1"
  define C where "C = length b + 1"
  define dp0 where "dp0 = replicate R (replicate C (0::nat))"
  define dp1 where "dp1 = fold (\<lambda>i dp. dp_set dp i 0 i) [0..<R] dp0"
  define dp2 where "dp2 = fold (\<lambda>j dp. dp_set dp 0 j j) [0..<C] dp1"
  define dp3 where "dp3 = fold (\<lambda>i dp. fold (\<lambda>j dp. dp_cell a b i j dp) [1..<C] dp) [1..<R] dp2"
  have lev: "levenshtein a b = last (last dp3)"
    by (simp add: levenshtein_def Let_def dp3_def dp2_def dp1_def dp0_def R_def C_def)
  have R: "0 < R" and C: "0 < C" by (simp_all add: R_def C_def)
  have "shape R C dp0" by (simp add: shape_def dp0_def)
  then have "shape R C dp1 \<and> (\<forall>i'<R. dp1 ! i' ! 0 = i')"
    unfolding dp1_def using C by (rule init_rows)
  then have "filled a b R C 1 1 dp2"
    unfolding dp2_def using R by (intro init_cols) auto
  then have f: "filled a b R C R 1 dp3"
    unfolding dp3_def using R C by (rule outer_loop_filled)
  then have sh: "length dp3 = R" "length (dp3 ! (R - 1)) = C"
    using R by (auto simp: filled_def shape_def)
  have "dp3 \<noteq> []" using sh(1) R by auto
  then have "last dp3 = dp3 ! (R - 1)"
    using sh(1) by (simp add: last_conv_nth)
  moreover have "dp3 ! (R - 1) \<noteq> []" using sh(2) C by auto
  then have "last (dp3 ! (R - 1)) = dp3 ! (R - 1) ! (C - 1)"
    using sh(2) by (simp add: last_conv_nth)
  moreover have "dp3 ! (R - 1) ! (C - 1) = lev_rec a b (R - 1) (C - 1)"
    using f R C by (simp add: filled_def)
  ultimately show ?thesis
    by (simp add: lev edit_distance_def R_def C_def)
qed

subsection \<open>The distance is the least number of edits\<close>

lemma lev_rec_delete: "lev_rec a b (Suc i) j \<le> Suc (lev_rec a b i j)"
  by (cases j) (simp_all add: lev_rec_col0)

lemma lev_rec_insert: "lev_rec a b i (Suc j) \<le> Suc (lev_rec a b i j)"
  by (cases i) simp_all

lemma lev_rec_replace: "lev_rec a b (Suc i) (Suc j) \<le> Suc (lev_rec a b i j)"
  by (auto simp: min_def)

lemma lev_rec_keep: "a ! i = b ! j \<Longrightarrow> lev_rec a b (Suc i) (Suc j) \<le> lev_rec a b i j"
  by simp

lemma take_snoc:
  assumes "xs @ [c] = take i a" and "i \<le> length a"
  shows "\<exists>i0. i = Suc i0 \<and> i0 < length a \<and> xs = take i0 a \<and> c = a ! i0"
proof -
  from assms(1) have "i \<noteq> 0" by (cases i) auto
  then obtain i0 where i: "i = Suc i0" by (cases i) auto
  with assms(2) have lt: "i0 < length a" by simp
  then have "take i a = take i0 a @ [a ! i0]" by (simp add: i take_Suc_conv_app_nth)
  with assms(1) have "xs = take i0 a \<and> c = a ! i0" by simp
  with i lt show ?thesis by blast
qed

lemma edits_lower:
  "edits x y n \<Longrightarrow> x = take i a \<Longrightarrow> y = take j b \<Longrightarrow> i \<le> length a \<Longrightarrow> j \<le> length b
   \<Longrightarrow> lev_rec a b i j \<le> n"
proof (induction x y n arbitrary: i j rule: edits.induct)
  case edits_Nil
  then have "i = 0" "j = 0" by auto
  then show ?case by simp
next
  case (edits_delete u v n c)
  from take_snoc [OF edits_delete.prems(1,3)] obtain i0 where
    i: "i = Suc i0" "i0 < length a" "u = take i0 a" by blast
  have "lev_rec a b i0 j \<le> n"
    using i edits_delete.prems by (intro edits_delete.IH) auto
  then show ?case using lev_rec_delete [of a b i0 j] i(1) by simp
next
  case (edits_insert u v n c)
  from take_snoc [OF edits_insert.prems(2,4)] obtain j0 where
    j: "j = Suc j0" "j0 < length b" "v = take j0 b" by blast
  have "lev_rec a b i j0 \<le> n"
    using j edits_insert.prems by (intro edits_insert.IH) auto
  then show ?case using lev_rec_insert [of a b i j0] j(1) by simp
next
  case (edits_replace u v n c d)
  from take_snoc [OF edits_replace.prems(1,3)] obtain i0 where
    i: "i = Suc i0" "i0 < length a" "u = take i0 a" by blast
  from take_snoc [OF edits_replace.prems(2,4)] obtain j0 where
    j: "j = Suc j0" "j0 < length b" "v = take j0 b" by blast
  have "lev_rec a b i0 j0 \<le> n"
    using i j by (intro edits_replace.IH) auto
  then show ?case using lev_rec_replace [of a b i0 j0] i(1) j(1) by simp
next
  case (edits_keep u v n c)
  from take_snoc [OF edits_keep.prems(1,3)] obtain i0 where
    i: "i = Suc i0" "i0 < length a" "u = take i0 a" "c = a ! i0" by blast
  from take_snoc [OF edits_keep.prems(2,4)] obtain j0 where
    j: "j = Suc j0" "j0 < length b" "v = take j0 b" "c = b ! j0" by blast
  have "lev_rec a b i0 j0 \<le> n"
    using i j by (intro edits_keep.IH) auto
  moreover have "a ! i0 = b ! j0" using i(4) j(4) by simp
  ultimately show ?case using lev_rec_keep [of a i0 b j0] i(1) j(1) by simp
qed

lemma edits_row0: "j \<le> length b \<Longrightarrow> edits [] (take j b) j"
proof (induction j)
  case 0
  show ?case by (simp add: edits_Nil)
next
  case (Suc j)
  then have "edits [] (take j b) j" by simp
  then have "edits [] (take j b @ [b ! j]) (Suc j)" by (rule edits_insert)
  then show ?case using Suc.prems by (simp add: take_Suc_conv_app_nth)
qed

lemma edits_col0: "i \<le> length a \<Longrightarrow> edits (take i a) [] i"
proof (induction i)
  case 0
  show ?case by (simp add: edits_Nil)
next
  case (Suc i)
  then have "edits (take i a) [] i" by simp
  then have "edits (take i a @ [a ! i]) [] (Suc i)" by (rule edits_delete)
  then show ?case using Suc.prems by (simp add: take_Suc_conv_app_nth)
qed

lemma edits_upper:
  "i \<le> length a \<Longrightarrow> j \<le> length b \<Longrightarrow> edits (take i a) (take j b) (lev_rec a b i j)"
proof (induction a b i j rule: lev_rec.induct)
  case (1 a b j)
  then show ?case using edits_row0 [of j b] by simp
next
  case (2 a b i)
  then show ?case using edits_col0 [of "Suc i" a] by simp
next
  case (3 a b i j)
  then have i: "i < length a" and j: "j < length b" by simp_all
  have ta: "take (Suc i) a = take i a @ [a ! i]" using i by (simp add: take_Suc_conv_app_nth)
  have tb: "take (Suc j) b = take j b @ [b ! j]" using j by (simp add: take_Suc_conv_app_nth)
  have e1: "edits (take i a) (take (Suc j) b) (lev_rec a b i (Suc j))"
    using 3 by simp
  have e2: "edits (take (Suc i) a) (take j b) (lev_rec a b (Suc i) j)"
    using 3 by simp
  have e3: "edits (take i a) (take j b) (lev_rec a b i j)"
    using 3 by simp
  have d: "edits (take (Suc i) a) (take (Suc j) b) (lev_rec a b i (Suc j) + 1)"
    unfolding ta using e1 by (simp add: edits_delete)
  have n: "edits (take (Suc i) a) (take (Suc j) b) (lev_rec a b (Suc i) j + 1)"
    unfolding tb using e2 by (simp add: edits_insert)
  have s: "edits (take (Suc i) a) (take (Suc j) b) (lev_rec a b i j + (if a ! i = b ! j then 0 else 1))"
  proof (cases "a ! i = b ! j")
    case True
    then show ?thesis unfolding ta tb using edits_keep [OF e3, of "b ! j"] by simp
  next
    case False
    then show ?thesis unfolding ta tb using edits_replace [OF e3, of "a ! i" "b ! j"] by simp
  qed
  show ?case
    using d n s by (simp add: min_def)
qed

lemma edit_distance_least:
  "edits a b (edit_distance a b) \<and> (\<forall>n. edits a b n \<longrightarrow> edit_distance a b \<le> n)"
proof (intro conjI allI impI)
  show "edits a b (edit_distance a b)"
    using edits_upper [of "length a" a "length b" b] by (simp add: edit_distance_def)
  fix n assume "edits a b n"
  then show "edit_distance a b \<le> n"
    unfolding edit_distance_def by (rule edits_lower) simp_all
qed

subsection \<open>The suggestion\<close>

lemma accepted_spec: "accepted q w = spec_acceptable q w"
  by (simp add: accepted_def spec_acceptable_def levenshtein_edit_distance)

text \<open>
  C7, as the code has it. Among the candidate words (the words of the lower-cased
  subjects, in order), the acceptable ones are those of length at least 3 whose
  Levenshtein distance to the lower-cased query is at most \<open>min(2, len // 2)\<close>, \<open>len\<close>
  being the length of the lower-cased query. If there is an acceptable candidate, the
  result is one of least distance, and every acceptable candidate before it in the order
  is strictly farther; otherwise the result is the empty string. The distance is
  \<open>edit_distance\<close>, the least number of edits (\<open>edit_distance_least\<close>), which the table of
  \<open>_levenshtein\<close> computes (\<open>levenshtein_edit_distance\<close>).
\<close>

theorem suggest_correction_first_minimum:
  "(if \<exists>w\<in>set (spec_candidates rt subjects). spec_acceptable (str_lower rt query) w
    then \<exists>i<length (spec_candidates rt subjects).
           suggest_correction rt query subjects = spec_candidates rt subjects ! i
         \<and> spec_acceptable (str_lower rt query) (spec_candidates rt subjects ! i)
         \<and> (\<forall>j<length (spec_candidates rt subjects).
               spec_acceptable (str_lower rt query) (spec_candidates rt subjects ! j)
               \<longrightarrow> edit_distance (str_lower rt query) (spec_candidates rt subjects ! i)
                    \<le> edit_distance (str_lower rt query) (spec_candidates rt subjects ! j))
         \<and> (\<forall>j<i. spec_acceptable (str_lower rt query) (spec_candidates rt subjects ! j)
               \<longrightarrow> edit_distance (str_lower rt query) (spec_candidates rt subjects ! i)
                    < edit_distance (str_lower rt query) (spec_candidates rt subjects ! j))
    else suggest_correction rt query subjects = [])"
  using suggest_correction_accepted [of rt subjects query]
  by (simp only: accepted_spec levenshtein_edit_distance)

lemma lev_meeting: "levenshtein (py ''meetign'') (py ''meeting'') = 2"
  by (simp add: levenshtein_def dp_set_def dp_cell_def string_defs Let_def)
lemma lev_tomorrow: "levenshtein (py ''meetign'') (py ''tomorrow'') = 8"
  by (simp add: levenshtein_def dp_set_def dp_cell_def string_defs Let_def)
lemma lev_budget: "levenshtein (py ''meetign'') (py ''budget'') = 7"
  by (simp add: levenshtein_def dp_set_def dp_cell_def string_defs Let_def)
lemma lev_review: "levenshtein (py ''meetign'') (py ''review'') = 5"
  by (simp add: levenshtein_def dp_set_def dp_cell_def string_defs Let_def)

text \<open>The example of the specification: the only acceptable candidate for \<open>meetign\<close> is
  \<open>meeting\<close>, at distance 2.\<close>

theorem suggest_correction_first_minimum_witness:
  "(\<exists>w\<in>set (spec_candidates plain_runtime [py ''Meeting tomorrow'', py ''Budget review'']).
      spec_acceptable (str_lower plain_runtime (py ''meetign'')) w)
   \<and> suggest_correction plain_runtime (py ''meetign'') [py ''Meeting tomorrow'', py ''Budget review'']
     = py ''meeting''"
proof -
  have q: "str_lower plain_runtime (py ''meetign'') = py ''meetign''"
    by (simp add: plain_runtime_def string_defs)
  have cs: "spec_candidates plain_runtime [py ''Meeting tomorrow'', py ''Budget review'']
            = [py ''meeting'', py ''tomorrow'', py ''budget'', py ''review'']"
    by (simp add: spec_candidates_def plain_runtime_def string_defs)
  have a0: "spec_acceptable (py ''meetign'') (py ''meeting'')"
    unfolding accepted_spec [symmetric] accepted_def lev_meeting by (simp add: py_def)
  have a1: "\<not> spec_acceptable (py ''meetign'') (py ''tomorrow'')"
    unfolding accepted_spec [symmetric] accepted_def lev_tomorrow by (simp add: py_def)
  have a2: "\<not> spec_acceptable (py ''meetign'') (py ''budget'')"
    unfolding accepted_spec [symmetric] accepted_def lev_budget by (simp add: py_def)
  have a3: "\<not> spec_acceptable (py ''meetign'') (py ''review'')"
    unfolding accepted_spec [symmetric] accepted_def lev_review by (simp add: py_def)
  have ex: "\<exists>w\<in>set (spec_candidates plain_runtime [py ''Meeting tomorrow'', py ''Budget review'']).
      spec_acceptable (str_lower plain_runtime (py ''meetign'')) w"
    unfolding q cs using a0 by simp
  from suggest_correction_first_minimum [of plain_runtime "[py ''Meeting tomorrow'', py ''Budget review'']" "py ''meetign''"] ex
  obtain i where i: "i < length [py ''meeting'', py ''tomorrow'', py ''budget'', py ''review'']"
    "suggest_correction plain_runtime (py ''meetign'') [py ''Meeting tomorrow'', py ''Budget review'']
       = [py ''meeting'', py ''tomorrow'', py ''budget'', py ''review''] ! i"
    "spec_acceptable (py ''meetign'') ([py ''meeting'', py ''tomorrow'', py ''budget'', py ''review''] ! i)"
    unfolding q cs by auto
  from i(1) consider "i = 0" | "i = 1" | "i = 2" | "i = 3" by fastforce
  then have "i = 0"
    using i(3) a1 a2 a3 by cases simp_all
  with i(2) ex show ?thesis by simp
qed

text \<open>
  C7 as stated, with the bound \<open>min(2, len(query) // 2)\<close> taken from the query as given,
  fails: the code takes the length of the lower-cased query. The query of two letters
  U+0130 has length 2, so the stated bound is 1; its lower-cased form has length 4, and
  the code returns the candidate \<open>iii\<close>, which is at distance 2.
\<close>

theorem suggest_correction_bound_of_lowered_query:
  "suggest_correction dotted_runtime [304, 304] [py ''iii''] = py ''iii''
   \<and> edit_distance (str_lower dotted_runtime [304, 304]) (py ''iii'') = 2
   \<and> min 2 (length [304, 304 :: pychar] div 2) = (1 :: nat)"
proof -
  have q: "str_lower dotted_runtime [304, 304] = [105, 775, 105, 775]"
    by (simp add: dotted_runtime_def plain_runtime_def)
  have w: "py ''iii'' = [105, 105, 105]"
    by (simp add: string_defs)
  have d: "levenshtein [105, 775, 105, 775] [105, 105, 105] = 2"
    by (simp add: levenshtein_def dp_set_def dp_cell_def Let_def)
  have r: "suggest_correction dotted_runtime [304, 304] [py ''iii''] = py ''iii''"
    unfolding suggest_correction_fold q w
    by (simp add: spec_candidates_def suggest_word_def d Let_def dotted_runtime_def plain_runtime_def
        string_defs)
  have e: "edit_distance [105, 775, 105, 775] (py ''iii'') = 2"
    unfolding w levenshtein_edit_distance [symmetric] by (rule d)
  show ?thesis
    using r e unfolding q by simp
qed

section \<open>The two already-replied checks\<close>

lemma replied_loop_mem:
  "msg \<in> set msgs \<Longrightarrow> contains user_email (sender_of rt msg) \<Longrightarrow> replied_loop rt user_email msgs"
  by (induction msgs) (auto simp: Let_def sender_of_def)

lemma replied_loop_Nil: "replied_loop rt user_email msgs \<Longrightarrow> msgs \<noteq> []"
  by auto

lemma replied_loop_iff:
  "replied_loop rt user_email msgs = (\<exists>msg\<in>set msgs. contains user_email (sender_of rt msg))"
  by (induction msgs) (auto simp: Let_def sender_of_def)

lemma check_already_replied_scan:
  "check_already_replied rt profile thread = spec_already_replied rt profile thread"
  by (simp add: check_already_replied_def spec_already_replied_def replied_loop_iff split: sum.splits)

lemma clean_snippet_empty: "(clean_snippet rt s n = []) = (html_unescape rt s = [])"
  by (auto simp: clean_snippet_def Let_def py_def)

lemma get_last_reply_unfold:
  "get_last_reply rt (Inr email_address) (Inr messages) =
     (if messages = [] then []
      else if contains (str_lower rt email_address) (sender_of rt (hd messages)) \<and> length messages = 1
      then []
      else if contains (str_lower rt email_address) (sender_of rt (last messages))
              \<and> \<not> (contains (str_lower rt email_address) (sender_of rt (hd messages))
                     \<and> last messages = hd messages)
      then clean_snippet rt (snippet (last messages)) 120
      else [])"
  by (simp add: get_last_reply_def sender_of_def Let_def)

lemma last_reply_after_first:
  assumes ne: "messages \<noteq> []"
    and single: "\<not> (contains user_email (sender_of rt (hd messages)) \<and> length messages = 1)"
    and last: "contains user_email (sender_of rt (last messages))"
  shows "replied_loop rt user_email (tl messages)"
proof -
  have "length messages \<noteq> 1"
  proof
    assume "length messages = 1"
    then obtain x where "messages = [x]" by (cases messages) auto
    with last single show False by simp
  qed
  with ne have "tl messages \<noteq> []" by (cases messages) auto
  with ne have "last messages \<in> set (tl messages)"
    by (metis last_in_set last_tl)
  then show ?thesis using last by (rule replied_loop_mem)
qed

lemma last_reply_nonempty:
  "(get_last_reply rt profile thread \<noteq> [])
   = (check_already_replied rt profile thread \<and> owner_wrote_last rt profile thread)"
proof (cases profile)
  case (Inl e)
  then show ?thesis
    by (simp add: get_last_reply_def check_already_replied_def)
next
  case p: (Inr email_address)
  show ?thesis
  proof (cases thread)
    case (Inl e)
    then show ?thesis
      by (simp add: get_last_reply_def check_already_replied_def p)
  next
    case t: (Inr messages)
    define user_email where "user_email = str_lower rt email_address"
    have chk: "check_already_replied rt profile thread = replied_loop rt user_email (tl messages)"
      by (simp add: check_already_replied_def p t user_email_def)
    have own: "owner_wrote_last rt profile thread =
        (messages \<noteq> [] \<and> contains user_email (sender_of rt (last messages))
         \<and> \<not> (contains user_email (sender_of rt (hd messages)) \<and> last messages = hd messages)
         \<and> html_unescape rt (snippet (last messages)) \<noteq> [])"
      by (simp add: owner_wrote_last_def p t user_email_def)
    have glr: "get_last_reply rt profile thread =
       (if messages = [] then []
        else if contains user_email (sender_of rt (hd messages)) \<and> length messages = 1 then []
        else if contains user_email (sender_of rt (last messages))
                \<and> \<not> (contains user_email (sender_of rt (hd messages)) \<and> last messages = hd messages)
        then clean_snippet rt (snippet (last messages)) 120
        else [])"
      unfolding p t user_email_def by (rule get_last_reply_unfold)
    show ?thesis
    proof
      assume nz: "get_last_reply rt profile thread \<noteq> []"
      then have ne: "messages \<noteq> []"
        and single: "\<not> (contains user_email (sender_of rt (hd messages)) \<and> length messages = 1)"
        and last: "contains user_email (sender_of rt (last messages))"
        and first: "\<not> (contains user_email (sender_of rt (hd messages)) \<and> last messages = hd messages)"
        and snip: "clean_snippet rt (snippet (last messages)) 120 \<noteq> []"
        unfolding glr by (auto split: if_splits)
      from ne single last have "replied_loop rt user_email (tl messages)"
        by (rule last_reply_after_first)
      moreover from snip have "html_unescape rt (snippet (last messages)) \<noteq> []"
        by (simp add: clean_snippet_empty)
      ultimately show "check_already_replied rt profile thread \<and> owner_wrote_last rt profile thread"
        unfolding chk own using ne last first by simp
    next
      assume r: "check_already_replied rt profile thread \<and> owner_wrote_last rt profile thread"
      then have "tl messages \<noteq> []" unfolding chk by (auto dest: replied_loop_Nil)
      then have ne: "messages \<noteq> []" and len: "length messages \<noteq> 1"
        by (cases messages; auto)+
      from r have last: "contains user_email (sender_of rt (last messages))"
        and first: "\<not> (contains user_email (sender_of rt (hd messages)) \<and> last messages = hd messages)"
        and snip: "html_unescape rt (snippet (last messages)) \<noteq> []"
        unfolding own by simp_all
      have "get_last_reply rt profile thread = clean_snippet rt (snippet (last messages)) 120"
        unfolding glr using ne len last first by simp
      then show "get_last_reply rt profile thread \<noteq> []"
        using snip by (simp add: clean_snippet_empty)
    qed
  qed
qed

text \<open>
  C2, as the code has it. \<open>check_already_replied\<close> answers true exactly when some message
  after the first has a sender that contains the address of the account owner.
  \<open>get_last_reply\<close> returns a non-empty snippet exactly when \<open>check_already_replied\<close>
  answers true and, in addition, the last message of the thread is from the account
  owner, is not equal to a first message from the owner, and has a snippet that is not
  empty once decoded. So a non-empty snippet implies the boolean, and the boolean implies
  a non-empty snippet only under the three further conditions: \<open>get_last_reply\<close> looks
  at the last message only, \<open>check_already_replied\<close> at every message after the first.
\<close>

theorem last_reply_iff_replied_and_owner_last:
  "check_already_replied rt profile thread = spec_already_replied rt profile thread
   \<and> (get_last_reply rt profile thread \<noteq> [])
     = (check_already_replied rt profile thread \<and> owner_wrote_last rt profile thread)"
  using check_already_replied_scan [of rt profile thread] last_reply_nonempty [of rt profile thread]
  by (simp only: simp_thms)

text \<open>Two examples. In a thread of a message from someone else and an answer of the
  owner, both checks are positive. So are they in a thread of two messages of the owner
  with the same sender and snippet and different ids: the two messages are not equal.\<close>

theorem last_reply_iff_replied_and_owner_last_witness:
  "get_last_reply plain_runtime (Inr (py ''me@x.io''))
       (Inr [msg_from ''m1'' ''a@y.io'' ''hi'', msg_from ''m2'' ''Me <me@x.io>'' ''ok'']) = py ''ok''
   \<and> check_already_replied plain_runtime (Inr (py ''me@x.io''))
       (Inr [msg_from ''m1'' ''a@y.io'' ''hi'', msg_from ''m2'' ''Me <me@x.io>'' ''ok''])
   \<and> owner_wrote_last plain_runtime (Inr (py ''me@x.io''))
       (Inr [msg_from ''m1'' ''a@y.io'' ''hi'', msg_from ''m2'' ''Me <me@x.io>'' ''ok''])
   \<and> get_last_reply plain_runtime (Inr (py ''me@x.io''))
       (Inr [msg_from ''m1'' ''me@x.io'' ''ok'', msg_from ''m2'' ''me@x.io'' ''ok'']) = py ''ok''
   \<and> check_already_replied plain_runtime (Inr (py ''me@x.io''))
       (Inr [msg_from ''m1'' ''me@x.io'' ''ok'', msg_from ''m2'' ''me@x.io'' ''ok''])"
proof -
  have g1: "get_last_reply plain_runtime (Inr (py ''me@x.io''))
       (Inr [msg_from ''m1'' ''a@y.io'' ''hi'', msg_from ''m2'' ''Me <me@x.io>'' ''ok'']) = py ''ok''"
    by (simp add: gmail_defs string_defs plain_runtime_def Let_def)
  have g2: "get_last_reply plain_runtime (Inr (py ''me@x.io''))
       (Inr [msg_from ''m1'' ''me@x.io'' ''ok'', msg_from ''m2'' ''me@x.io'' ''ok'']) = py ''ok''"
    by (simp add: gmail_defs string_defs plain_runtime_def Let_def)
  have n1: "get_last_reply plain_runtime (Inr (py ''me@x.io''))
       (Inr [msg_from ''m1'' ''a@y.io'' ''hi'', msg_from ''m2'' ''Me <me@x.io>'' ''ok'']) \<noteq> []"
    unfolding g1 by (simp add: py_def)
  have n2: "get_last_reply plain_runtime (Inr (py ''me@x.io''))
       (Inr [msg_from ''m1'' ''me@x.io'' ''ok'', msg_from ''m2'' ''me@x.io'' ''ok'']) \<noteq> []"
    unfolding g2 by (simp add: py_def)
  show ?thesis
    using g1 g2
      last_reply_iff_replied_and_owner_last [THEN conjunct2, THEN iffD1, OF n1]
      last_reply_iff_replied_and_owner_last [THEN conjunct2, THEN iffD1, OF n2]
    by simp
qed

text \<open>
  C2 as stated fails: in a thread of three messages whose second message is from the
  account owner and whose last message is not, \<open>check_already_replied\<close> is true and
  \<open>get_last_reply\<close> returns the empty string.
\<close>

theorem reply_checks_disagree:
  "\<not> (get_last_reply plain_runtime (Inr (py ''me@x.io''))
          (Inr [msg_from ''m1'' ''a@y.io'' ''hi'', msg_from ''m2'' ''me@x.io'' ''ok'',
                msg_from ''m3'' ''a@y.io'' ''thanks'']) \<noteq> []
       \<longleftrightarrow> check_already_replied plain_runtime (Inr (py ''me@x.io''))
          (Inr [msg_from ''m1'' ''a@y.io'' ''hi'', msg_from ''m2'' ''me@x.io'' ''ok'',
                msg_from ''m3'' ''a@y.io'' ''thanks'']))"
  by (simp add: gmail_defs string_defs plain_runtime_def Let_def)

section \<open>Tool calls with arguments that are not JSON\<close>

text \<open>
  C3. The arguments of a tool call are parsed by \<open>json.loads\<close> in \<open>chat\<close>, before
  \<open>run_tool\<close> and outside its \<open>try\<close>. When the arguments are not JSON the exception
  leaves the loop: the iteration raises and no \<open>tool\<close> message is appended, whatever the
  name of the tool.
\<close>

theorem chat_raises_on_malformed_arguments:
  assumes "json_loads ev (arguments tc) = Inl e"
  shows "chat_iteration ev messages (text, tc # tcs) = Raise e (messages @ [AssistantMsg text (tc # tcs)])"
  using assms by (simp add: chat_iteration_def)

theorem chat_raises_on_malformed_arguments_witness:
  "json_loads plain_env (arguments \<lparr>call_id = py ''c1'', name = py ''search_emails'', arguments = py ''{''\<rparr>)
     = Inl (Error (py ''Expecting property name enclosed in double quotes''))
   \<and> chat_iteration plain_env [] (py '''', [\<lparr>call_id = py ''c1'', name = py ''search_emails'', arguments = py ''{''\<rparr>])
     = Raise (Error (py ''Expecting property name enclosed in double quotes''))
         [AssistantMsg (py '''') [\<lparr>call_id = py ''c1'', name = py ''search_emails'', arguments = py ''{''\<rparr>]]"
proof -
  have h: "json_loads plain_env (arguments \<lparr>call_id = py ''c1'', name = py ''search_emails'', arguments = py ''{''\<rparr>)
     = Inl (Error (py ''Expecting property name enclosed in double quotes''))"
    by (simp add: plain_env_def string_defs)
  show ?thesis
    using h chat_raises_on_malformed_arguments [OF h, of "[]" "py ''''" "[]"] by simp
qed

text \<open>
  C4. With two tool calls of which the second has arguments that are not JSON, the loop
  appends the \<open>tool\<close> message of the first call and raises: one message for two calls.
\<close>

theorem tool_loop_stops_at_malformed_arguments:
  assumes "json_loads ev (arguments tc1) = Inr a" and "json_loads ev (arguments tc2) = Inl e"
  shows "tool_loop ev messages [tc1, tc2]
         = Inl (e, messages @ [ToolMsg (call_id tc1) (run_tool ev (name tc1) a)])"
  using assms by simp

theorem tool_loop_stops_at_malformed_arguments_witness:
  "json_loads plain_env (arguments \<lparr>call_id = py ''c1'', name = py ''search_emails'', arguments = py ''{}''\<rparr>)
     = Inr (JObj [])
   \<and> json_loads plain_env (arguments \<lparr>call_id = py ''c2'', name = py ''search_emails'', arguments = py ''{''\<rparr>)
     = Inl (Error (py ''Expecting property name enclosed in double quotes''))
   \<and> tool_loop plain_env []
       [\<lparr>call_id = py ''c1'', name = py ''search_emails'', arguments = py ''{}''\<rparr>,
        \<lparr>call_id = py ''c2'', name = py ''search_emails'', arguments = py ''{''\<rparr>]
     = Inl (Error (py ''Expecting property name enclosed in double quotes''),
            [ToolMsg (py ''c1'')
               (py ''Error running search_emails: search_emails() missing 1 required positional argument: ''
                @ quoted ''query'')])"
proof -
  have h1: "json_loads plain_env (arguments \<lparr>call_id = py ''c1'', name = py ''search_emails'', arguments = py ''{}''\<rparr>)
     = Inr (JObj [])"
    by (simp add: plain_env_def)
  have h2: "json_loads plain_env (arguments \<lparr>call_id = py ''c2'', name = py ''search_emails'', arguments = py ''{''\<rparr>)
     = Inl (Error (py ''Expecting property name enclosed in double quotes''))"
    by (simp add: plain_env_def string_defs)
  have r: "run_tool plain_env (py ''search_emails'') (JObj [])
       = py ''Error running search_emails: search_emails() missing 1 required positional argument: ''
         @ quoted ''query''"
    by (simp add: agent_defs exn_text_def py_def)
  show ?thesis
    using h1 h2 r tool_loop_stops_at_malformed_arguments [OF h1 h2, of "[]"] by simp
qed

text \<open>When the arguments of every call parse, the loop appends one \<open>tool\<close> message per
  call, in the order of the calls and with the identifier of its call; an unknown tool
  name and a tool that raises give an error text.\<close>

lemma tool_loop_all_parsed:
  assumes "\<forall>tc\<in>set tcs. \<exists>a. json_loads ev (arguments tc) = Inr a"
  shows "tool_loop ev messages tcs
         = Inr (messages @ map (\<lambda>tc. ToolMsg (call_id tc)
                  (run_tool ev (name tc) (projr (json_loads ev (arguments tc))))) tcs)"
  using assms by (induction tcs arbitrary: messages) auto

lemma run_tool_unknown:
  "TOOL_FUNCTIONS ev tool_name = None \<Longrightarrow> run_tool ev tool_name tool_args = py ''Unknown tool: '' @ tool_name"
  by (simp add: run_tool_def)

section \<open>The subject of a reply\<close>

lemma reply_subject_cases:
  "reply_subject rt subject =
     (if \<exists>rest. subject = py ''Re:'' @ rest then strip rt subject else py ''Re: '' @ strip rt subject)"
proof -
  have "(take 3 subject = py ''Re:'') = (\<exists>rest. subject = py ''Re:'' @ rest)"
    using take_length_eq_iff [of "py ''Re:''" subject] by (simp add: py_def numeral_3_eq_3)
  then show ?thesis by (simp add: reply_subject_def)
qed

text \<open>
  C9. \<open>send_reply\<close> tests the subject as given for the prefix and sends the trimmed
  subject: a subject with white space before \<open>Re:\<close> goes out with the prefix twice.
\<close>

theorem send_reply_doubles_prefix:
  "send_reply plain_runtime (Inr (\<lambda>request. Inr ())) (py ''a@y.io'') (py '' Re: hello'') (py ''Thanks.'')
      None None
   = (py ''Reply sent successfully to a@y.io'',
      Some \<lparr> raw = \<lparr> content = py ''Thanks.'', hdr_To = py ''a@y.io'', hdr_Subject = py ''Re: Re: hello'',
                       hdr_In_Reply_To = None, hdr_References = None \<rparr>,
              threadId = None \<rparr>)"
  by (simp add: gmail_defs string_defs plain_runtime_def)

section \<open>Texts that no redaction pattern can match\<close>

lemma greedy_suffix:
  assumes "\<And>p q. q \<in> set (f p) \<Longrightarrow> \<exists>cs. snd p = cs @ snd q"
  shows "q \<in> set (greedy f n lo hi p) \<Longrightarrow> \<exists>cs. snd p = cs @ snd q"
proof (induction n arbitrary: lo hi p)
  case 0
  then show ?case by (auto split: if_splits)
next
  case (Suc n)
  show ?case
  proof (cases "q = p")
    case True
    then show ?thesis by simp
  next
    case False
    with Suc.prems obtain p' where p': "p' \<in> set (f p)" "q \<in> set (greedy f n (lo - 1) (dec hi) p')"
      by (auto split: if_splits)
    from p'(1) obtain cs where "snd p = cs @ snd p'" using assms by blast
    moreover from p'(2) obtain ds where "snd p' = ds @ snd q" using Suc.IH by blast
    ultimately have "snd p = (cs @ ds) @ snd q" by simp
    then show ?thesis by blast
  qed
qed

lemma lazy_suffix:
  assumes "\<And>p q. q \<in> set (f p) \<Longrightarrow> \<exists>cs. snd p = cs @ snd q"
  shows "q \<in> set (lazy f n lo hi p) \<Longrightarrow> \<exists>cs. snd p = cs @ snd q"
proof (induction n arbitrary: lo hi p)
  case 0
  then show ?case by (auto split: if_splits)
next
  case (Suc n)
  show ?case
  proof (cases "q = p")
    case True
    then show ?thesis by simp
  next
    case False
    with Suc.prems obtain p' where p': "p' \<in> set (f p)" "q \<in> set (lazy f n (lo - 1) (dec hi) p')"
      by (auto split: if_splits)
    from p'(1) obtain cs where "snd p = cs @ snd p'" using assms by blast
    moreover from p'(2) obtain ds where "snd p' = ds @ snd q" using Suc.IH by blast
    ultimately have "snd p = (cs @ ds) @ snd q" by simp
    then show ?thesis by blast
  qed
qed

lemma m_suffix: "q \<in> set (m r p) \<Longrightarrow> \<exists>cs. snd p = cs @ snd q"
proof (induction r arbitrary: p q)
  case Eps
  then show ?case by simp
next
  case (Chr c)
  then show ?case by (cases "snd p") (auto split: if_splits)
next
  case (Cls P)
  then show ?case by (cases "snd p") (auto split: if_splits)
next
  case (Seq a b)
  from Seq.prems obtain p' where p': "p' \<in> set (m a p)" "q \<in> set (m b p')" by auto
  from p'(1) obtain cs where "snd p = cs @ snd p'" using Seq.IH(1) by blast
  moreover from p'(2) obtain ds where "snd p' = ds @ snd q" using Seq.IH(2) by blast
  ultimately have "snd p = (cs @ ds) @ snd q" by simp
  then show ?case by blast
next
  case (Alt a b)
  from Alt.prems have "q \<in> set (m a p) \<or> q \<in> set (m b p)" by simp
  then show ?case using Alt.IH by blast
next
  case (Rep r lo hi)
  from Rep.prems have "q \<in> set (greedy (m r) (length (snd p)) lo hi p)" by simp
  moreover have "\<And>p q. q \<in> set (m r p) \<Longrightarrow> \<exists>cs. snd p = cs @ snd q" by (rule Rep.IH)
  ultimately show ?case using greedy_suffix [of "m r" q] by blast
next
  case (Lazy r lo hi)
  from Lazy.prems have "q \<in> set (lazy (m r) (length (snd p)) lo hi p)" by simp
  moreover have "\<And>p q. q \<in> set (m r p) \<Longrightarrow> \<exists>cs. snd p = cs @ snd q" by (rule Lazy.IH)
  ultimately show ?case using lazy_suffix [of "m r" q] by blast
next
  case (Bnd w)
  then show ?case by (auto split: if_splits)
qed

lemma greedy_no_start: "f p = [] \<Longrightarrow> 0 < lo \<Longrightarrow> greedy f n lo hi p = []"
  by (cases n) auto

lemma lazy_no_start: "f p = [] \<Longrightarrow> 0 < lo \<Longrightarrow> lazy f n lo hi p = []"
  by (cases n) auto

lemma m_needs: "needs D r \<Longrightarrow> \<forall>c\<in>set (snd p). \<not> D c \<Longrightarrow> m r p = []"
proof (induction r arbitrary: p)
  case (Chr c)
  then show ?case by (cases "snd p") auto
next
  case (Cls P)
  then show ?case by (cases "snd p") auto
next
  case (Seq a b)
  show ?case
  proof (cases "needs D a")
    case True
    then have "m a p = []" using Seq.IH(1) Seq.prems(2) by blast
    then show ?thesis by simp
  next
    case False
    with Seq.prems have nb: "needs D b" by simp
    have "m b q = []" if "q \<in> set (m a p)" for q
    proof -
      from that obtain cs where "snd p = cs @ snd q" using m_suffix by blast
      with Seq.prems(2) have "\<forall>c\<in>set (snd q). \<not> D c" by auto
      with nb show ?thesis using Seq.IH(2) by blast
    qed
    then show ?thesis by simp
  qed
next
  case (Alt a b)
  then show ?case by simp
next
  case (Rep r lo hi)
  then have "m r p = []" by simp
  with Rep.prems(1) show ?case by (simp add: greedy_no_start)
next
  case (Lazy r lo hi)
  then have "m r p = []" by simp
  with Lazy.prems(1) show ?case by (simp add: lazy_no_start)
qed simp_all

lemma scan_needs: "needs D r \<Longrightarrow> \<forall>c\<in>set s. \<not> D c \<Longrightarrow> scan r pv s = map Inl s"
proof (induction s arbitrary: pv)
  case Nil
  then have "m r (pv, []) = []" using m_needs [of D r "(pv, [])"] by simp
  then show ?case by (simp add: match_len_def)
next
  case (Cons c s)
  then have "m r (pv, c # s) = []" using m_needs [of D r "(pv, c # s)"] by simp
  then have "match_len r (pv, c # s) = None" by (simp add: match_len_def)
  with Cons show ?case by simp
qed

lemma findall_needs: "needs D r \<Longrightarrow> \<forall>c\<in>set s. \<not> D c \<Longrightarrow> findall r s = []"
  by (simp add: findall_def scan_needs)

lemma re_sub_needs: "needs D r \<Longrightarrow> \<forall>c\<in>set s. \<not> D c \<Longrightarrow> re_sub r repl s = s"
  by (simp add: re_sub_def scan_needs comp_def)

lemma needs_seqs_Cons: "needs D (seqs (r # rs)) = (needs D r \<or> needs D (seqs rs))"
  by (cases rs) simp_all

lemma needs_pii:
  "\<forall>rule\<in>set (PII_PATTERNS rt). needs (digit_or_at rt) (fst rule)"
  by (simp add: PII_PATTERNS_def id_re_def card_re_def il_phone_re_def phone_re_def email_re_def
      address_re_def account_re_def digit_or_at_def wb_def digit_def lit_def opt_def rep1_def
      ord_def is_digit_def ascii_digit_def)

lemma redact_loop_no_match:
  "\<forall>rule\<in>set rules. findall (fst rule) text = [] \<Longrightarrow> redact_loop rules (text, ns) = (text, ns)"
  by (induction rules) auto

text \<open>
  C10, as the code has it. A text without the at sign and without any character of the
  digit class of \<open>re\<close> (the ASCII digits and every other Unicode decimal digit) is
  returned unchanged with no notice: each of the seven patterns needs such a character.
\<close>

theorem redact_pii_identity_without_digits:
  assumes "\<forall>c\<in>set text. \<not> is_digit rt c \<and> c \<noteq> ord CHR ''@''"
  shows "redact_pii rt text = (text, [])"
proof -
  from assms have nd: "\<forall>c\<in>set text. \<not> digit_or_at rt c"
    by (simp add: digit_or_at_def)
  have "\<forall>rule\<in>set (PII_PATTERNS rt). findall (fst rule) text = []"
    using needs_pii nd findall_needs by blast
  then have "redact_loop (PII_PATTERNS rt) (text, []) = (text, [])"
    by (rule redact_loop_no_match)
  then show ?thesis by (simp add: redact_pii_def)
qed

theorem redact_pii_identity_without_digits_witness:
  "list_all (\<lambda>c. \<not> is_digit plain_runtime c \<and> c \<noteq> ord CHR ''@'') (py ''Hello, world!'')
   \<and> redact_pii plain_runtime (py ''Hello, world!'') = (py ''Hello, world!'', [])"
proof -
  have h: "\<forall>c\<in>set (py ''Hello, world!''). \<not> is_digit plain_runtime c \<and> c \<noteq> ord CHR ''@''"
    by (simp add: string_defs plain_runtime_def)
  have l: "list_all (\<lambda>c. \<not> is_digit plain_runtime c \<and> c \<noteq> ord CHR ''@'') (py ''Hello, world!'')"
    using h by (simp only: list_all_iff)
  show ?thesis
    using l redact_pii_identity_without_digits [OF h] by simp
qed

text \<open>
  C10 as stated fails: the nine Arabic-Indic digits U+0661 to U+0669 hold no ASCII digit
  and no at sign, and the first pattern redacts them, since its digit class is not
  limited to ASCII.
\<close>

theorem redact_pii_arabic_indic_digits:
  "list_all plain_char [1633, 1634, 1635, 1636, 1637, 1638, 1639, 1640, 1641]
   \<and> redact_pii plain_runtime [1633, 1634, 1635, 1636, 1637, 1638, 1639, 1640, 1641]
       = (py ''[ID_REDACTED]'', [py ''[ID_REDACTED]''])"
  by (simp add: plain_char_def string_defs regex_defs sanitizer_defs plain_runtime_def)

section \<open>The redaction notices\<close>

lemma redact_loop_append:
  "redact_loop (rs @ rs') st = redact_loop rs' (redact_loop rs st)"
proof (induction rs arbitrary: st)
  case Nil
  show ?case by (cases st) simp
next
  case (Cons r rs)
  show ?case by (cases st; cases r) (simp add: Cons.IH Let_def)
qed

lemma redact_loop_step:
  assumes "n < length rules"
  shows "redact_loop (take (Suc n) rules) (text, [])
         = (let st = redact_loop (take n rules) (text, [])
            in if findall (fst (rules ! n)) (fst st) \<noteq> []
               then (re_sub (fst (rules ! n)) (snd (rules ! n)) (fst st), snd st @ [snd (rules ! n)])
               else st)"
proof -
  have "take (Suc n) rules = take n rules @ [rules ! n]"
    using assms by (simp add: take_Suc_conv_app_nth)
  then show ?thesis
    by (cases "redact_loop (take n rules) (text, [])"; cases "rules ! n")
       (simp add: redact_loop_append Let_def)
qed

lemma length_PII: "length (PII_PATTERNS rt) = 7"
  by (simp add: PII_PATTERNS_def)

lemma text_after_Suc:
  "n < 7 \<Longrightarrow> text_after rt (Suc n) text =
     (if rule_matched rt n text
      then re_sub (fst (PII_PATTERNS rt ! n)) (snd (PII_PATTERNS rt ! n)) (text_after rt n text)
      else text_after rt n text)"
  by (simp add: text_after_def rule_matched_def redact_loop_step length_PII Let_def)

lemma notices_after:
  "n \<le> 7 \<Longrightarrow> snd (redact_loop (take n (PII_PATTERNS rt)) (text, []))
     = concat (map (\<lambda>i. if rule_matched rt i text then [snd (PII_PATTERNS rt ! i)] else []) [0..<n])"
proof (induction n)
  case 0
  show ?case by simp
next
  case (Suc n)
  then have "n < length (PII_PATTERNS rt)" by (simp add: length_PII)
  then show ?case
    using Suc by (simp add: redact_loop_step Let_def rule_matched_def text_after_def)
qed

lemma dedup_loop_append:
  "dedup_loop (xs @ ys) seen u = dedup_loop ys (seen \<union> set xs) (dedup_loop xs seen u)"
  by (induction xs arbitrary: seen u) (auto simp: insert_absorb)

lemma dedup_loop_labels:
  assumes "distinct [a, b, c, d, e, f]"
  shows "dedup_loop ((if b0 then [a] else []) @ (if b1 then [b] else []) @ (if b2 then [c] else [])
            @ (if b3 then [c] else []) @ (if b4 then [d] else []) @ (if b5 then [e] else [])
            @ (if b6 then [f] else [])) {} []
         = (if b0 then [a] else []) @ (if b1 then [b] else []) @ (if b2 \<or> b3 then [c] else [])
            @ (if b4 then [d] else []) @ (if b5 then [e] else []) @ (if b6 then [f] else [])"
  using assms by (cases b0; cases b1; cases b2; cases b3; cases b4; cases b5; cases b6) auto

lemma labels_distinct:
  "distinct [py ''[ID_REDACTED]'', py ''[CARD_REDACTED]'', py ''[PHONE_REDACTED]'',
             py ''[EMAIL_REDACTED]'', py ''[ADDRESS_REDACTED]'', py ''[ACCOUNT_REDACTED]'']"
  by (simp add: py_def ord_def)

text \<open>
  C6. The notices returned by \<open>redact_pii\<close> are the labels of the rules that matched, each
  once, in the order of the rule list: identity number, card, phone (for either phone
  rule), email, address, account. They are pairwise different. A rule that matches the
  text left by the rules before it replaces all its matches (\<open>re.sub\<close>); a rule that does
  not match leaves the text as it is.
\<close>

theorem redact_pii_notices_in_rule_order:
  "snd (redact_pii rt text) =
       (if rule_matched rt 0 text then [py ''[ID_REDACTED]''] else [])
     @ (if rule_matched rt 1 text then [py ''[CARD_REDACTED]''] else [])
     @ (if rule_matched rt 2 text \<or> rule_matched rt 3 text then [py ''[PHONE_REDACTED]''] else [])
     @ (if rule_matched rt 4 text then [py ''[EMAIL_REDACTED]''] else [])
     @ (if rule_matched rt 5 text then [py ''[ADDRESS_REDACTED]''] else [])
     @ (if rule_matched rt 6 text then [py ''[ACCOUNT_REDACTED]''] else [])
   \<and> distinct (snd (redact_pii rt text))
   \<and> fst (redact_pii rt text) = text_after rt 7 text
   \<and> text_after rt 0 text = text
   \<and> (\<forall>n<7. text_after rt (Suc n) text =
        (if rule_matched rt n text
         then re_sub (fst (PII_PATTERNS rt ! n)) (snd (PII_PATTERNS rt ! n)) (text_after rt n text)
         else text_after rt n text))"
proof -
  have upt7: "[0..<7] = [0, 1, 2, 3, 4, 5, 6]"
    by (simp add: upt_rec)
  have all: "take 7 (PII_PATTERNS rt) = PII_PATTERNS rt"
    by (simp add: length_PII)
  have raw: "snd (redact_loop (PII_PATTERNS rt) (text, []))
     = (if rule_matched rt 0 text then [py ''[ID_REDACTED]''] else [])
     @ (if rule_matched rt 1 text then [py ''[CARD_REDACTED]''] else [])
     @ (if rule_matched rt 2 text then [py ''[PHONE_REDACTED]''] else [])
     @ (if rule_matched rt 3 text then [py ''[PHONE_REDACTED]''] else [])
     @ (if rule_matched rt 4 text then [py ''[EMAIL_REDACTED]''] else [])
     @ (if rule_matched rt 5 text then [py ''[ADDRESS_REDACTED]''] else [])
     @ (if rule_matched rt 6 text then [py ''[ACCOUNT_REDACTED]''] else [])"
    using notices_after [of 7 rt "text"] unfolding all upt7
    by (simp add: PII_PATTERNS_def)
  have notices: "snd (redact_pii rt text) =
       (if rule_matched rt 0 text then [py ''[ID_REDACTED]''] else [])
     @ (if rule_matched rt 1 text then [py ''[CARD_REDACTED]''] else [])
     @ (if rule_matched rt 2 text \<or> rule_matched rt 3 text then [py ''[PHONE_REDACTED]''] else [])
     @ (if rule_matched rt 4 text then [py ''[EMAIL_REDACTED]''] else [])
     @ (if rule_matched rt 5 text then [py ''[ADDRESS_REDACTED]''] else [])
     @ (if rule_matched rt 6 text then [py ''[ACCOUNT_REDACTED]''] else [])"
    unfolding redact_pii_def
    by (simp only: case_prod_beta Let_def snd_conv raw dedup_loop_labels [OF labels_distinct])
  have dist: "distinct (snd (redact_pii rt text))"
    unfolding notices using labels_distinct by simp
  have final: "fst (redact_pii rt text) = text_after rt 7 text"
    by (simp add: redact_pii_def text_after_def all case_prod_beta)
  have start: "text_after rt 0 text = text"
    by (simp add: text_after_def)
  show ?thesis
    using notices dist final start text_after_Suc by blast
qed

text \<open>An identity number followed by a card number gives the notices in rule order, which
  is not the alphabetical one.\<close>

theorem redact_pii_notices_in_rule_order_witness:
  "snd (redact_pii plain_runtime (py ''123456789 4111111111111111''))
     = [py ''[ID_REDACTED]'', py ''[CARD_REDACTED]'']
   \<and> text_after plain_runtime 7 (py ''123456789 4111111111111111'')
     = py ''[ID_REDACTED] [CARD_REDACTED]''"
proof -
  have e: "redact_pii plain_runtime (py ''123456789 4111111111111111'')
     = (py ''[ID_REDACTED] [CARD_REDACTED]'', [py ''[ID_REDACTED]'', py ''[CARD_REDACTED]''])"
    by (simp add: string_defs regex_defs sanitizer_defs plain_runtime_def)
  show ?thesis
    using redact_pii_notices_in_rule_order [of plain_runtime "py ''123456789 4111111111111111''"] e
    by simp
qed

section \<open>The text normalizer applied to its own result\<close>

subsection \<open>Substitution on a text without tags\<close>

lemma re_sub_from: "re_sub r repl s = sub_from r repl None s"
  by (simp add: re_sub_def sub_from_def)

lemma sub_from_Nil: "m r (pv, []) = [] \<Longrightarrow> sub_from r repl pv [] = []"
  by (simp add: sub_from_def match_len_def)

lemma sub_from_no_match:
  "m r (pv, c # s) = [] \<Longrightarrow> sub_from r repl pv (c # s) = c # sub_from r repl (Some c) s"
  by (simp add: sub_from_def match_len_def)

lemma sub_from_match:
  assumes "m r (pv, c # s) = q # qs" and "length (snd q) \<le> length s"
  shows "sub_from r repl pv (c # s)
         = repl @ sub_from r repl (Some ((c # s) ! (length s - length (snd q))))
                    (drop (length s - length (snd q)) s)"
proof -
  have "match_len r (pv, c # s) = Some (Suc (length s - length (snd q)))"
    using assms by (simp add: match_len_def Suc_diff_le)
  then show ?thesis by (simp add: sub_from_def)
qed

lemma greedy_cls_chr:
  "length u \<le> n \<Longrightarrow>
   concat (map (m (Chr e)) (greedy (m (Cls (\<lambda>c. c \<noteq> e))) n lo None (pv, u)))
     = (if lo \<le> length (takeWhile (\<lambda>c. c \<noteq> e) u) \<and> dropWhile (\<lambda>c. c \<noteq> e) u \<noteq> []
        then [(Some e, tl (dropWhile (\<lambda>c. c \<noteq> e) u))] else [])"
proof (induction u arbitrary: n lo pv)
  case Nil
  then show ?case by (cases n) auto
next
  case (Cons c u)
  then obtain n' where n: "n = Suc n'" "length u \<le> n'" by (cases n) auto
  show ?case
  proof (cases "c = e")
    case True
    then show ?thesis by (simp add: n advances_def dec_def)
  next
    case False
    have "concat (map (m (Chr e)) (greedy (m (Cls (\<lambda>c. c \<noteq> e))) n lo None (pv, c # u)))
          = concat (map (m (Chr e)) (greedy (m (Cls (\<lambda>c. c \<noteq> e))) n' (lo - 1) None (Some c, u)))"
      using False by (simp add: n advances_def dec_def)
    also have "\<dots> = (if lo - 1 \<le> length (takeWhile (\<lambda>c. c \<noteq> e) u) \<and> dropWhile (\<lambda>c. c \<noteq> e) u \<noteq> []
        then [(Some e, tl (dropWhile (\<lambda>c. c \<noteq> e) u))] else [])"
      using n(2) by (rule Cons.IH)
    also have "\<dots> = (if lo \<le> length (takeWhile (\<lambda>c. c \<noteq> e) (c # u)) \<and> dropWhile (\<lambda>c. c \<noteq> e) (c # u) \<noteq> []
        then [(Some e, tl (dropWhile (\<lambda>c. c \<noteq> e) (c # u)))] else [])"
      using False by auto
    finally show ?thesis .
  qed
qed

lemma tag_re_eq: "tag_re = Seq (Chr 60) (Seq (Rep (Cls (\<lambda>c. c \<noteq> 62)) 1 None) (Chr 62))"
  by (simp add: tag_re_def lit_def rep1_def ord_def)

lemma m_tag_Nil: "m tag_re (pv, []) = []"
  by (simp add: tag_re_eq)

lemma m_tag_Cons:
  "m tag_re (pv, c # u)
     = (if c = 60 \<and> takeWhile (\<lambda>c. c \<noteq> 62) u \<noteq> [] \<and> dropWhile (\<lambda>c. c \<noteq> 62) u \<noteq> []
        then [(Some 62, tl (dropWhile (\<lambda>c. c \<noteq> 62) u))] else [])"
proof (cases "c = 60")
  case True
  have "m tag_re (pv, c # u)
        = concat (map (m (Chr 62)) (greedy (m (Cls (\<lambda>c. c \<noteq> 62))) (length u) 1 None (Some 60, u)))"
    using True by (simp add: tag_re_eq)
  also have "\<dots> = (if 1 \<le> length (takeWhile (\<lambda>c. c \<noteq> 62) u) \<and> dropWhile (\<lambda>c. c \<noteq> 62) u \<noteq> []
        then [(Some 62, tl (dropWhile (\<lambda>c. c \<noteq> 62) u))] else [])"
    by (rule greedy_cls_chr) simp
  finally show ?thesis using True by (simp add: Suc_le_eq)
next
  case False
  then show ?thesis by (simp add: tag_re_eq)
qed

lemma tagfree_no_tag: "tagfree s \<Longrightarrow> m tag_re (pv, s) = []"
proof (cases s)
  case Nil
  then show ?thesis by (simp add: m_tag_Nil)
next
  case (Cons c u)
  assume tf: "tagfree s"
  show ?thesis
  proof (cases "c = 60")
    case False
    then show ?thesis by (simp add: Cons m_tag_Cons)
  next
    case True
    with tf Cons consider "62 \<notin> set u" | "take 1 u = [62]" by auto
    then show ?thesis
    proof cases
      case 1
      then have "dropWhile (\<lambda>c. c \<noteq> 62) u = []" by auto
      then show ?thesis by (simp add: Cons m_tag_Cons)
    next
      case 2
      then obtain u' where "u = 62 # u'" by (cases u) auto
      then show ?thesis by (simp add: Cons m_tag_Cons)
    qed
  qed
qed

lemma tagfree_tl: "tagfree (c # s) \<Longrightarrow> tagfree s"
  by simp

lemma scan_identity:
  assumes "\<And>pv t. P t \<Longrightarrow> m r (pv, t) = []" and "\<And>c t. P (c # t) \<Longrightarrow> P t"
  shows "P s \<Longrightarrow> sub_from r repl pv s = s"
proof (induction s arbitrary: pv)
  case Nil
  then show ?case using assms(1) by (simp add: sub_from_Nil)
next
  case (Cons c s)
  then have "m r (pv, c # s) = []" using assms(1) by blast
  moreover have "P s" using Cons.prems assms(2) by blast
  ultimately show ?case using Cons.IH by (simp add: sub_from_no_match)
qed

lemma sub_tag_identity: "tagfree s \<Longrightarrow> re_sub tag_re [] s = s"
  unfolding re_sub_from
  by (rule scan_identity [where P = tagfree]) (auto simp: tagfree_no_tag)

lemma sub_from_set: "set (sub_from r repl pv s) \<subseteq> set s \<union> set repl"
proof (induction s arbitrary: pv rule: length_induct)
  case (1 s)
  show ?case
  proof (cases s)
    case Nil
    then show ?thesis by (auto simp: sub_from_def split: option.splits)
  next
    case (Cons c u)
    show ?thesis
    proof (cases "match_len r (pv, c # u)")
      case None
      then have "sub_from r repl pv s = c # sub_from r repl (Some c) u"
        by (simp add: sub_from_def Cons)
      moreover have "set (sub_from r repl (Some c) u) \<subseteq> set u \<union> set repl"
        using 1 Cons by simp
      ultimately show ?thesis using Cons by auto
    next
      case (Some k)
      show ?thesis
      proof (cases k)
        case 0
        with Some have "sub_from r repl pv s = repl @ c # sub_from r repl (Some c) u"
          by (simp add: sub_from_def Cons)
        moreover have "set (sub_from r repl (Some c) u) \<subseteq> set u \<union> set repl"
          using 1 Cons by simp
        ultimately show ?thesis using Cons by auto
      next
        case (Suc j)
        with Some have "sub_from r repl pv s = repl @ sub_from r repl (Some ((c # u) ! j)) (drop j u)"
          by (simp add: sub_from_def Cons)
        moreover have "set (sub_from r repl (Some ((c # u) ! j)) (drop j u)) \<subseteq> set (drop j u) \<union> set repl"
          using 1 Cons by simp
        moreover have "set (drop j u) \<subseteq> set u" by (rule set_drop_subset)
        ultimately show ?thesis using Cons by auto
      qed
    qed
  qed
qed

lemma sub_tag_tagfree: "tagfree (sub_from tag_re [] pv s)"
proof (induction s arbitrary: pv rule: length_induct)
  case (1 s)
  show ?case
  proof (cases s)
    case Nil
    then show ?thesis by (simp add: sub_from_Nil m_tag_Nil)
  next
    case (Cons c u)
    let ?tw = "takeWhile (\<lambda>c. c \<noteq> 62) u"
    let ?dw = "dropWhile (\<lambda>c. c \<noteq> 62) u"
    show ?thesis
    proof (cases "c = 60 \<and> ?tw \<noteq> [] \<and> ?dw \<noteq> []")
      case True
      then have mm: "m tag_re (pv, c # u) = (Some 62, tl ?dw) # []"
        by (simp add: m_tag_Cons)
      have len: "length (snd (Some (62::nat), tl ?dw)) \<le> length u"
        using length_dropWhile_le [of "\<lambda>c. c \<noteq> 62" u] by simp
      have "sub_from tag_re [] pv (c # u)
            = [] @ sub_from tag_re [] (Some ((c # u) ! (length u - length (snd (Some (62::nat), tl ?dw)))))
                      (drop (length u - length (snd (Some (62::nat), tl ?dw))) u)"
        using mm len by (rule sub_from_match)
      moreover have "length (drop (length u - length (snd (Some (62::nat), tl ?dw))) u) < length s"
        using Cons by simp
      ultimately show ?thesis using 1 Cons by simp
    next
      case False
      then have mm: "m tag_re (pv, c # u) = []" by (simp add: m_tag_Cons)
      then have eq: "sub_from tag_re [] pv s = c # sub_from tag_re [] (Some c) u"
        by (simp add: Cons sub_from_no_match)
      have tf: "tagfree (sub_from tag_re [] (Some c) u)" using 1 Cons by simp
      have "62 \<notin> set (sub_from tag_re [] (Some c) u) \<or> take 1 (sub_from tag_re [] (Some c) u) = [62]"
        if c: "c = 60"
      proof -
        from False c consider "?tw = []" | "?dw = []" by blast
        then show ?thesis
        proof cases
          case 1
          show ?thesis
          proof (cases u)
            case Nil
            then show ?thesis by (simp add: sub_from_Nil m_tag_Nil)
          next
            case (Cons d u')
            with 1 have "d = 62" by (auto split: if_splits)
            then have "m tag_re (Some c, u) = []" by (simp add: Cons m_tag_Cons)
            then show ?thesis using \<open>d = 62\<close> by (simp add: Cons sub_from_no_match)
          qed
        next
          case 2
          then have "62 \<notin> set u" by auto
          moreover have "set (sub_from tag_re [] (Some c) u) \<subseteq> set u \<union> set []"
            by (rule sub_from_set)
          ultimately show ?thesis by auto
        qed
      qed
      with tf show ?thesis unfolding eq by simp
    qed
  qed
qed

subsection \<open>The script pattern on a text without tags\<close>

lemma script_re_eq:
  "script_re rt = Seq (Chr 60)
     (seqs [Alt (lit_ci rt ''script'') (lit_ci rt ''style''),
            rep0 (Cls (\<lambda>c. c \<noteq> ord CHR ''>'')), lit ''>'',
            Lazy (Cls (\<lambda>c. True)) 0 None,
            lit ''</'', Alt (lit_ci rt ''script'') (lit_ci rt ''style''), lit ''>''])"
  by (simp add: script_re_def lit_def ord_def)

lemma script_tail_needs:
  "needs (\<lambda>c. c = 62)
     (seqs [Alt (lit_ci rt ''script'') (lit_ci rt ''style''),
            rep0 (Cls (\<lambda>c. c \<noteq> ord CHR ''>'')), lit ''>'',
            Lazy (Cls (\<lambda>c. True)) 0 None,
            lit ''</'', Alt (lit_ci rt ''script'') (lit_ci rt ''style''), lit ''>''])"
  by (simp add: lit_def ord_def)

lemma script_tail_gt:
  "m (seqs [Alt (lit_ci rt ''script'') (lit_ci rt ''style''),
            rep0 (Cls (\<lambda>c. c \<noteq> ord CHR ''>'')), lit ''>'',
            Lazy (Cls (\<lambda>c. True)) 0 None,
            lit ''</'', Alt (lit_ci rt ''script'') (lit_ci rt ''style''), lit ''>'']) (pv, 62 # u) = []"
  by (simp add: lit_ci_def ci_match_def ord_def)

lemma lt_seq_no_match:
  assumes nd: "needs (\<lambda>c. c = 62) r"
    and gt: "\<And>pv u. m r (pv, 62 # u) = []"
    and tf: "tagfree s"
  shows "m (Seq (Chr 60) r) (pv, s) = []"
proof (cases s)
  case Nil
  then show ?thesis by simp
next
  case (Cons c u)
  show ?thesis
  proof (cases "c = 60")
    case False
    then show ?thesis by (simp add: Cons)
  next
    case True
    with tf Cons consider "62 \<notin> set u" | "take 1 u = [62]" by auto
    then show ?thesis
    proof cases
      case 1
      then have "\<forall>c\<in>set (snd (Some (60::nat), u)). \<not> c = 62" by auto
      with nd have "m r (Some 60, u) = []" by (rule m_needs)
      then show ?thesis using True by (simp add: Cons)
    next
      case 2
      then obtain u' where "u = 62 # u'" by (cases u) auto
      then show ?thesis using True gt [of "Some 60" u'] by (simp add: Cons)
    qed
  qed
qed

lemma tagfree_no_script: "tagfree s \<Longrightarrow> m (script_re rt) (pv, s) = []"
  unfolding script_re_eq
  by (rule lt_seq_no_match [OF script_tail_needs script_tail_gt])

lemma sub_script_identity: "tagfree s \<Longrightarrow> re_sub (script_re rt) [] s = s"
  unfolding re_sub_from
  by (rule scan_identity [where P = tagfree]) (auto simp: tagfree_no_script)

subsection \<open>The newline pattern\<close>

lemma greedy_chr:
  "length u \<le> n \<Longrightarrow>
   (length (takeWhile (\<lambda>c. c = e) u) < lo \<longrightarrow> greedy (m (Chr e)) n lo None (pv, u) = [])
   \<and> (lo \<le> length (takeWhile (\<lambda>c. c = e) u) \<longrightarrow>
        (\<exists>pv' qs. greedy (m (Chr e)) n lo None (pv, u) = (pv', dropWhile (\<lambda>c. c = e) u) # qs))"
proof (induction u arbitrary: n lo pv)
  case Nil
  then show ?case by (cases n) auto
next
  case (Cons c u)
  then obtain n' where n: "n = Suc n'" "length u \<le> n'" by (cases n) auto
  show ?case
  proof (cases "c = e")
    case False
    then show ?thesis by (simp add: n)
  next
    case True
    have g: "greedy (m (Chr e)) n lo None (pv, c # u)
             = greedy (m (Chr e)) n' (lo - 1) None (Some e, u) @ (if lo = 0 then [(pv, c # u)] else [])"
      using True by (simp add: n advances_def dec_def)
    from Cons.IH [OF n(2), of "lo - 1" "Some e"]
    have ih1: "length (takeWhile (\<lambda>c. c = e) u) < lo - 1 \<Longrightarrow> greedy (m (Chr e)) n' (lo - 1) None (Some e, u) = []"
      and ih2: "lo - 1 \<le> length (takeWhile (\<lambda>c. c = e) u) \<Longrightarrow>
        \<exists>pv' qs. greedy (m (Chr e)) n' (lo - 1) None (Some e, u) = (pv', dropWhile (\<lambda>c. c = e) u) # qs"
      by blast+
    show ?thesis
    proof (intro conjI impI)
      assume "length (takeWhile (\<lambda>c. c = e) (c # u)) < lo"
      with True have "length (takeWhile (\<lambda>c. c = e) u) < lo - 1" "lo \<noteq> 0" by auto
      then show "greedy (m (Chr e)) n lo None (pv, c # u) = []"
        unfolding g using ih1 by simp
    next
      assume "lo \<le> length (takeWhile (\<lambda>c. c = e) (c # u))"
      with True have "lo - 1 \<le> length (takeWhile (\<lambda>c. c = e) u)" by auto
      then obtain pv' qs where "greedy (m (Chr e)) n' (lo - 1) None (Some e, u) = (pv', dropWhile (\<lambda>c. c = e) u) # qs"
        using ih2 by blast
      then show "\<exists>pv' qs. greedy (m (Chr e)) n lo None (pv, c # u) = (pv', dropWhile (\<lambda>c. c = e) (c # u)) # qs"
        unfolding g using True by simp
    qed
  qed
qed

lemma m_newlines_none: "lead s < 3 \<Longrightarrow> m newlines_re (pv, s) = []"
  using greedy_chr [of s "length s" 10 3 pv] by (simp add: newlines_re_def lead_def)

lemma m_newlines_some:
  "3 \<le> lead s \<Longrightarrow> \<exists>pv' qs. m newlines_re (pv, s) = (pv', dropWhile (\<lambda>c. c = 10) s) # qs"
  using greedy_chr [of s "length s" 10 3 pv] by (simp add: newlines_re_def lead_def)

lemma drop_dropWhile: "drop (length u - length (dropWhile P u)) u = dropWhile P u"
proof -
  have "length u = length (takeWhile P u) + length (dropWhile P u)"
    by (metis length_append takeWhile_dropWhile_id)
  then have "length u - length (dropWhile P u) = length (takeWhile P u)" by simp
  then show ?thesis by (metis append_eq_conv_conj takeWhile_dropWhile_id)
qed

lemma sub_newlines_match:
  assumes "3 \<le> lead (c # u)"
  shows "\<exists>pv'. sub_from newlines_re [10, 10] pv (c # u)
              = [10, 10] @ sub_from newlines_re [10, 10] pv' (dropWhile (\<lambda>c. c = 10) u)"
proof -
  from assms have c: "c = 10" by (auto simp: lead_def split: if_splits)
  from m_newlines_some [OF assms, of pv] obtain pv' qs where
    mm: "m newlines_re (pv, c # u) = (pv', dropWhile (\<lambda>c. c = 10) u) # qs"
    using c by auto
  have len: "length (snd (pv', dropWhile (\<lambda>c. c = 10) u)) \<le> length u"
    using length_dropWhile_le [of "\<lambda>c. c = 10" u] by simp
  have "sub_from newlines_re [10, 10] pv (c # u)
        = [10, 10] @ sub_from newlines_re [10, 10]
            (Some ((c # u) ! (length u - length (snd (pv', dropWhile (\<lambda>c. c = 10) u)))))
            (drop (length u - length (snd (pv', dropWhile (\<lambda>c. c = 10) u))) u)"
    using mm len by (rule sub_from_match)
  then show ?thesis by (auto simp: drop_dropWhile)
qed

lemma sub_newlines_no_match:
  "lead (c # u) < 3 \<Longrightarrow> sub_from newlines_re [10, 10] pv (c # u) = c # sub_from newlines_re [10, 10] (Some c) u"
  by (simp add: sub_from_no_match m_newlines_none)

lemma sub_newlines_Nil: "sub_from newlines_re [10, 10] pv [] = []"
  by (simp add: sub_from_Nil m_newlines_none lead_def)

lemma lead_sub_zero: "lead s = 0 \<Longrightarrow> lead (sub_from newlines_re [10, 10] pv s) = 0"
proof (cases s)
  case Nil
  then show ?thesis by (simp add: sub_newlines_Nil lead_def)
next
  case (Cons c u)
  assume "lead s = 0"
  with Cons have c: "c \<noteq> 10" and lt: "lead (c # u) < 3" by (auto simp: lead_def split: if_splits)
  have eq: "sub_from newlines_re [10, 10] pv (c # u) = c # sub_from newlines_re [10, 10] (Some c) u"
    using lt by (rule sub_newlines_no_match)
  show ?thesis unfolding Cons eq using c by (simp add: lead_def)
qed

lemma lead_sub_one: "lead s \<le> 1 \<Longrightarrow> lead (sub_from newlines_re [10, 10] pv s) \<le> 1"
proof (cases s)
  case Nil
  then show ?thesis by (simp add: sub_newlines_Nil lead_def)
next
  case (Cons c u)
  assume le: "lead s \<le> 1"
  then have lt: "lead (c # u) < 3" using Cons by simp
  show ?thesis
  proof (cases "c = 10")
    case False
    have eq: "sub_from newlines_re [10, 10] pv (c # u) = c # sub_from newlines_re [10, 10] (Some c) u"
      using lt by (rule sub_newlines_no_match)
    show ?thesis unfolding Cons eq using False by (simp add: lead_def)
  next
    case True
    with le Cons have "lead u = 0" by (simp add: lead_def)
    then have z: "lead (sub_from newlines_re [10, 10] (Some c) u) = 0" by (rule lead_sub_zero)
    have eq: "sub_from newlines_re [10, 10] pv (c # u) = c # sub_from newlines_re [10, 10] (Some c) u"
      using lt by (rule sub_newlines_no_match)
    show ?thesis unfolding Cons eq using z True by (simp add: lead_def)
  qed
qed

lemma nlfree_Cons: "nlfree (c # s) = (\<not> (c = 10 \<and> take 2 s = [10, 10]) \<and> nlfree s)"
proof -
  have "(take 3 (c # s) = [10, 10, 10]) = (c = 10 \<and> take 2 s = [10, 10])"
    by (cases s) (auto simp: numeral_3_eq_3 numeral_2_eq_2)
  then show ?thesis by (simp add: nlfree_def numeral_3_eq_3)
qed

lemma nlfree_Nil: "nlfree []"
  by (simp add: nlfree_def)

lemma take2_lead: "take 2 s = [10, 10] \<Longrightarrow> 2 \<le> lead s"
  by (cases s; cases "tl s") (auto simp: lead_def numeral_2_eq_2)

lemma lead_take3: "3 \<le> lead s \<Longrightarrow> take 3 s = [10, 10, 10]"
proof -
  assume "3 \<le> lead s"
  then obtain a b c t where "s = a # b # c # t" "a = 10" "b = 10" "c = 10"
    by (cases s; cases "tl s"; cases "tl (tl s)") (auto simp: lead_def split: if_splits)
  then show ?thesis by (simp add: numeral_3_eq_3)
qed

lemma nlfree_lead: "nlfree s \<Longrightarrow> lead s < 3"
proof (rule ccontr)
  assume nf: "nlfree s" and "\<not> lead s < 3"
  then have "take 3 s = [10, 10, 10]" using lead_take3 by simp
  then have "s = [] @ [10, 10, 10] @ drop 3 s" by (metis append_Nil append_take_drop_id)
  then have "contains [10, 10, 10] s" unfolding contains_iff by blast
  with nf show False by (simp add: nlfree_def)
qed

lemma lead_dropWhile: "lead (dropWhile (\<lambda>c. c = 10) u) = 0"
proof (cases "dropWhile (\<lambda>c. c = 10) u")
  case Nil
  show ?thesis unfolding Nil by (simp add: lead_def)
next
  case (Cons d t)
  then have "dropWhile (\<lambda>c. c = 10) u \<noteq> []" by simp
  then have "\<not> hd (dropWhile (\<lambda>c. c = 10) u) = 10" by (rule hd_dropWhile)
  with Cons have "d \<noteq> 10" by simp
  then show ?thesis by (simp add: Cons lead_def)
qed

lemma nlfree_two: "lead t = 0 \<Longrightarrow> nlfree t \<Longrightarrow> nlfree (10 # 10 # t)"
proof (cases t)
  case Nil
  then show ?thesis by (simp add: nlfree_Cons nlfree_Nil)
next
  case (Cons d t')
  assume "lead t = 0" and nf: "nlfree t"
  with Cons have "d \<noteq> 10" by (auto simp: lead_def split: if_splits)
  with nf show ?thesis by (simp add: Cons nlfree_Cons numeral_2_eq_2)
qed

lemma sub_newlines_identity: "nlfree s \<Longrightarrow> re_sub newlines_re [10, 10] s = s"
  unfolding re_sub_from
proof (rule scan_identity [where P = nlfree])
  show "\<And>pv t. nlfree t \<Longrightarrow> m newlines_re (pv, t) = []"
    by (simp add: m_newlines_none nlfree_lead)
  show "\<And>c t. nlfree (c # t) \<Longrightarrow> nlfree t"
    by (simp add: nlfree_Cons)
qed

lemma sub_newlines_nlfree: "nlfree (sub_from newlines_re [10, 10] pv s)"
proof (induction s arbitrary: pv rule: length_induct)
  case (1 s)
  show ?case
  proof (cases s)
    case Nil
    then show ?thesis by (simp add: sub_newlines_Nil nlfree_Nil)
  next
    case (Cons c u)
    show ?thesis
    proof (cases "3 \<le> lead (c # u)")
      case True
      then obtain pv' where eq: "sub_from newlines_re [10, 10] pv (c # u)
              = [10, 10] @ sub_from newlines_re [10, 10] pv' (dropWhile (\<lambda>c. c = 10) u)"
        using sub_newlines_match by blast
      let ?t = "sub_from newlines_re [10, 10] pv' (dropWhile (\<lambda>c. c = 10) u)"
      have "length (dropWhile (\<lambda>c. c = 10) u) < length s"
        using Cons length_dropWhile_le [of "\<lambda>c. c = 10" u] by simp
      then have nf: "nlfree ?t" using 1 by blast
      have "lead (dropWhile (\<lambda>c. c = 10) u) = 0" by (rule lead_dropWhile)
      then have "lead ?t = 0" by (rule lead_sub_zero)
      then have "nlfree (10 # 10 # ?t)" using nf by (rule nlfree_two)
      then show ?thesis unfolding Cons eq by simp
    next
      case False
      then have lt: "lead (c # u) < 3" by simp
      have eq: "sub_from newlines_re [10, 10] pv (c # u) = c # sub_from newlines_re [10, 10] (Some c) u"
        using lt by (rule sub_newlines_no_match)
      have nf: "nlfree (sub_from newlines_re [10, 10] (Some c) u)" using 1 Cons by simp
      have "take 2 (sub_from newlines_re [10, 10] (Some c) u) \<noteq> [10, 10]" if "c = 10"
      proof
        assume t2: "take 2 (sub_from newlines_re [10, 10] (Some c) u) = [10, 10]"
        from lt that have "lead u \<le> 1" by (simp add: lead_def)
        then have "lead (sub_from newlines_re [10, 10] (Some c) u) \<le> 1" by (rule lead_sub_one)
        moreover from t2 have "2 \<le> lead (sub_from newlines_re [10, 10] (Some c) u)" by (rule take2_lead)
        ultimately show False by simp
      qed
      with nf show ?thesis unfolding Cons eq nlfree_Cons by blast
    qed
  qed
qed

lemma tagfree_dropWhile: "tagfree s \<Longrightarrow> tagfree (dropWhile P s)"
  by (induction s) auto

lemma tagfree_prefix: "tagfree (a @ b) \<Longrightarrow> tagfree a"
proof (induction a)
  case Nil
  show ?case by simp
next
  case (Cons c a)
  then show ?case by (cases a) auto
qed

lemma sub_newlines_tagfree: "tagfree s \<Longrightarrow> tagfree (sub_from newlines_re [10, 10] pv s)"
proof (induction s arbitrary: pv rule: length_induct)
  case (1 s)
  show ?case
  proof (cases s)
    case Nil
    then show ?thesis by (simp add: sub_newlines_Nil)
  next
    case (Cons c u)
    show ?thesis
    proof (cases "3 \<le> lead (c # u)")
      case True
      then obtain pv' where eq: "sub_from newlines_re [10, 10] pv (c # u)
              = [10, 10] @ sub_from newlines_re [10, 10] pv' (dropWhile (\<lambda>c. c = 10) u)"
        using sub_newlines_match by blast
      have "length (dropWhile (\<lambda>c. c = 10) u) < length s"
        using Cons length_dropWhile_le [of "\<lambda>c. c = 10" u] by simp
      moreover have "tagfree (dropWhile (\<lambda>c. c = 10) u)"
        using "1.prems" Cons by (simp add: tagfree_dropWhile)
      ultimately have "tagfree (sub_from newlines_re [10, 10] pv' (dropWhile (\<lambda>c. c = 10) u))"
        using 1 by blast
      then show ?thesis unfolding Cons eq by simp
    next
      case False
      then have lt: "lead (c # u) < 3" by simp
      have eq: "sub_from newlines_re [10, 10] pv (c # u) = c # sub_from newlines_re [10, 10] (Some c) u"
        using lt by (rule sub_newlines_no_match)
      have tu: "tagfree u" using "1.prems" Cons by simp
      then have tf: "tagfree (sub_from newlines_re [10, 10] (Some c) u)" using 1 Cons by simp
      have "62 \<notin> set (sub_from newlines_re [10, 10] (Some c) u)
            \<or> take 1 (sub_from newlines_re [10, 10] (Some c) u) = [62]" if c: "c = 60"
      proof -
        from "1.prems" Cons c consider "62 \<notin> set u" | "take 1 u = [62]" by auto
        then show ?thesis
        proof cases
          case 1
          moreover have "set (sub_from newlines_re [10, 10] (Some c) u) \<subseteq> set u \<union> set [10, 10]"
            by (rule sub_from_set)
          ultimately show ?thesis by auto
        next
          case 2
          then obtain u' where u: "u = 62 # u'" by (cases u) auto
          have "lead (62 # u') < 3" by (simp add: lead_def)
          then show ?thesis unfolding u by (simp add: sub_newlines_no_match)
        qed
      qed
      with tf show ?thesis unfolding Cons eq by simp
    qed
  qed
qed


subsection \<open>Trimming\<close>

lemma strip_tail:
  "dropWhile (is_space rt) s
     = strip rt s @ rev (takeWhile (is_space rt) (rev (dropWhile (is_space rt) s)))"
proof -
  let ?P = "is_space rt"
  let ?a = "dropWhile ?P s"
  have "strip rt s @ rev (takeWhile ?P (rev ?a)) = rev (takeWhile ?P (rev ?a) @ dropWhile ?P (rev ?a))"
    by (simp only: strip_def rev_append)
  also have "\<dots> = rev (rev ?a)" by (simp only: takeWhile_dropWhile_id)
  also have "\<dots> = ?a" by simp
  finally show ?thesis by simp
qed

lemma strip_decomp: "\<exists>x y. s = x @ strip rt s @ y"
proof -
  let ?P = "is_space rt"
  let ?a = "dropWhile ?P s"
  have a: "?a = strip rt s @ rev (takeWhile ?P (rev ?a))" by (rule strip_tail)
  have "s = takeWhile ?P s @ ?a" by simp
  then have "s = takeWhile ?P s @ strip rt s @ rev (takeWhile ?P (rev ?a))"
    using a by simp
  then show ?thesis by blast
qed

lemma strip_idem: "strip rt (strip rt s) = strip rt s"
proof -
  let ?P = "is_space rt"
  let ?a = "dropWhile ?P s"
  let ?b = "strip rt s"
  have rb: "rev ?b = dropWhile ?P (rev ?a)" by (simp add: strip_def)
  have a: "?a = ?b @ rev (takeWhile ?P (rev ?a))" by (rule strip_tail)
  have front: "dropWhile ?P ?b = ?b"
  proof (cases "?b = []")
    case True
    then show ?thesis by simp
  next
    case False
    then have "hd ?b = hd ?a" using a by (metis hd_append2)
    moreover have "?a \<noteq> []"
    proof
      assume "?a = []"
      with a have "[] = ?b @ rev (takeWhile ?P (rev ?a))" by (simp only:)
      then have "?b = []" by (simp only: Nil_is_append_conv)
      with False show False by blast
    qed
    then have "\<not> ?P (hd ?a)" by (rule hd_dropWhile)
    ultimately have "\<not> ?P (hd ?b)" by simp
    with False show ?thesis by (cases ?b) auto
  qed
  have "strip rt ?b = rev (dropWhile ?P (rev (dropWhile ?P ?b)))" by (simp add: strip_def)
  also have "\<dots> = rev (dropWhile ?P (rev ?b))" by (simp only: front)
  also have "\<dots> = rev (dropWhile ?P (dropWhile ?P (rev ?a)))" by (simp only: rb)
  also have "\<dots> = rev (dropWhile ?P (rev ?a))" by (simp only: dropWhile_idem)
  also have "\<dots> = ?b" by (simp add: strip_def)
  finally show ?thesis .
qed

lemma tagfree_suffix: "tagfree (a @ b) \<Longrightarrow> tagfree b"
  by (induction a) auto

lemma tagfree_strip: "tagfree s \<Longrightarrow> tagfree (strip rt s)"
proof -
  assume tf: "tagfree s"
  obtain x y where "s = x @ strip rt s @ y" using strip_decomp by blast
  with tf have "tagfree (x @ strip rt s @ y)" by simp
  then have "tagfree (strip rt s @ y)" by (rule tagfree_suffix)
  then show ?thesis by (rule tagfree_prefix)
qed

lemma nlfree_strip: "nlfree s \<Longrightarrow> nlfree (strip rt s)"
proof -
  assume nf: "nlfree s"
  obtain x y where s: "s = x @ strip rt s @ y" using strip_decomp by blast
  show ?thesis
  proof (rule ccontr)
    assume "\<not> nlfree (strip rt s)"
    then obtain a b where "strip rt s = a @ [10, 10, 10] @ b"
      unfolding nlfree_def contains_iff by blast
    with s have "s = (x @ a) @ [10, 10, 10] @ (b @ y)" by simp
    then have "contains [10, 10, 10] s" unfolding contains_iff by blast
    with nf show False by (simp add: nlfree_def)
  qed
qed

subsection \<open>The normalizer applied twice\<close>

text \<open>
  C5, as the code has it. Applying \<open>strip_html_tags\<close> to its own result gives that result
  again whenever \<open>html.unescape\<close> leaves the result unchanged: the result has no tag and no
  run of three newlines left and is trimmed, so the four later steps are the identity on it.
\<close>

theorem strip_html_tags_idempotent_when_decoded:
  assumes "html_unescape rt (strip_html_tags rt x) = strip_html_tags rt x"
  shows "strip_html_tags rt (strip_html_tags rt x) = strip_html_tags rt x"
proof -
  define v where "v = re_sub (script_re rt) [] (html_unescape rt x)"
  define z where "z = re_sub newlines_re [10, 10] (re_sub tag_re [] v)"
  define y where "y = strip rt z"
  have y: "strip_html_tags rt x = y"
    by (simp add: strip_html_tags_def y_def z_def v_def Let_def)
  have "tagfree (re_sub tag_re [] v)" by (simp add: re_sub_from sub_tag_tagfree)
  then have tz: "tagfree z" by (simp add: z_def re_sub_from sub_newlines_tagfree)
  have nz: "nlfree z" by (simp add: z_def re_sub_from sub_newlines_nlfree)
  from tz have ty: "tagfree y" unfolding y_def by (rule tagfree_strip)
  from nz have ny: "nlfree y" unfolding y_def by (rule nlfree_strip)
  have "strip_html_tags rt y
        = strip rt (re_sub newlines_re [10, 10] (re_sub tag_re [] (re_sub (script_re rt) [] (html_unescape rt y))))"
    by (simp add: strip_html_tags_def Let_def)
  also have "\<dots> = strip rt (re_sub newlines_re [10, 10] (re_sub tag_re [] (re_sub (script_re rt) [] y)))"
    using assms by (simp add: y)
  also have "\<dots> = strip rt (re_sub newlines_re [10, 10] (re_sub tag_re [] y))"
    using ty by (simp add: sub_script_identity)
  also have "\<dots> = strip rt (re_sub newlines_re [10, 10] y)"
    using ty by (simp add: sub_tag_identity)
  also have "\<dots> = strip rt y"
    using ny by (simp add: sub_newlines_identity)
  also have "\<dots> = y"
    unfolding y_def by (rule strip_idem)
  finally show ?thesis by (simp add: y)
qed

text \<open>An example: \<open><b>Hi</b>\<close> followed by a space is normalized to \<open>Hi\<close>, which has no
  character reference.\<close>

theorem strip_html_tags_idempotent_when_decoded_witness:
  "html_unescape plain_runtime (strip_html_tags plain_runtime (py ''<b>Hi</b> ''))
     = strip_html_tags plain_runtime (py ''<b>Hi</b> '')
   \<and> strip_html_tags plain_runtime (strip_html_tags plain_runtime (py ''<b>Hi</b> ''))
     = strip_html_tags plain_runtime (py ''<b>Hi</b> '')"
proof -
  have e: "strip_html_tags plain_runtime (py ''<b>Hi</b> '') = py ''Hi''"
    by (simp add: string_defs regex_defs sanitizer_defs plain_runtime_def)
  have h: "html_unescape plain_runtime (strip_html_tags plain_runtime (py ''<b>Hi</b> ''))
     = strip_html_tags plain_runtime (py ''<b>Hi</b> '')"
    unfolding e by (simp add: string_defs plain_runtime_def)
  show ?thesis
    using h strip_html_tags_idempotent_when_decoded [OF h] by simp
qed

text \<open>
  C5 as stated (for every input) fails: the first step decodes character references, and
  the decoded text can hold a reference again. \<open>&amp;amp;\<close> is normalized to \<open>&amp;\<close>, and
  \<open>&amp;\<close> to \<open>&\<close>.
\<close>

theorem strip_html_tags_decodes_again:
  "strip_html_tags plain_runtime (py ''&amp;amp;'') = py ''&amp;''
   \<and> strip_html_tags plain_runtime (strip_html_tags plain_runtime (py ''&amp;amp;'')) = py ''&''"
proof -
  have e: "strip_html_tags plain_runtime (py ''&amp;amp;'') = py ''&amp;''"
    by (simp add: string_defs regex_defs sanitizer_defs plain_runtime_def)
  have f: "strip_html_tags plain_runtime (py ''&amp;'') = py ''&''"
    by (simp add: string_defs regex_defs sanitizer_defs plain_runtime_def)
  show ?thesis using e f by simp
qed

end
